theory Spec2Isabelle
  imports Main "HOL-Library.Sublist" "HOL-Library.List_Lexorder" "HOL-Library.Char_ord"
begin

section \<open>JavaScript strings and arrays\<close>

text \<open>
  \<open>String.prototype.split\<close> with a string separator: the text is scanned from the left,
  every occurrence of the separator cuts, occurrences do not overlap, and the result has
  at least one element.  The script only ever splits on the non-empty separators
  \<open>'_'\<close>, \<open>'_sol_'\<close> and \<open>'.'\<close> (and, inside \<open>path.resolve\<close>, on \<open>'/'\<close>); the empty
  separator, which JavaScript treats specially, is left without a cut.
\<close>

fun js_split_from :: "string \<Rightarrow> string \<Rightarrow> string \<Rightarrow> string list" where
  "js_split_from sep acc [] = [acc]"
| "js_split_from sep acc (c # cs) =
     (if sep \<noteq> [] \<and> take (length sep) (c # cs) = sep
      then acc # js_split_from sep [] (drop (length sep - 1) cs)
      else js_split_from sep (acc @ [c]) cs)"

definition js_split :: "string \<Rightarrow> string \<Rightarrow> string list" where
  "js_split s sep = js_split_from sep [] s"

text \<open>\<open>Array.prototype.join\<close>.\<close>

fun js_join :: "string list \<Rightarrow> string \<Rightarrow> string" where
  "js_join [] sep = []"
| "js_join [x] sep = x"
| "js_join (x # y # ys) sep = x @ sep @ js_join (y # ys) sep"

text \<open>Reading position \<open>i\<close> of an array: \<open>undefined\<close> past the end.\<close>

fun js_index :: "'a list \<Rightarrow> nat \<Rightarrow> 'a option" where
  "js_index [] i = None"
| "js_index (x # xs) 0 = Some x"
| "js_index (x # xs) (Suc i) = js_index xs i"

text \<open>\<open>String.prototype.replace\<close> with a string pattern: the first occurrence only.\<close>

fun js_replace :: "string \<Rightarrow> string \<Rightarrow> string \<Rightarrow> string" where
  "js_replace [] pat rep = (if pat = [] then rep else [])"
| "js_replace (c # cs) pat rep =
     (if take (length pat) (c # cs) = pat then rep @ drop (length pat) (c # cs)
      else c # js_replace cs pat rep)"

text \<open>
  \<open>new Map(pairs)\<close>: entries keep the position of the first insertion of their key, a
  later pair with the same key replaces the value.
\<close>

fun js_Map_set :: "('k \<times> 'v) list \<Rightarrow> 'k \<Rightarrow> 'v \<Rightarrow> ('k \<times> 'v) list" where
  "js_Map_set [] k v = [(k, v)]"
| "js_Map_set ((k', v') # m) k v =
     (if k' = k then (k, v) # m else (k', v') # js_Map_set m k v)"

definition js_Map :: "('k \<times> 'v) list \<Rightarrow> ('k \<times> 'v) list" where
  "js_Map pairs = foldl (\<lambda>m (k, v). js_Map_set m k v) [] pairs"

section \<open>Paths and the file system\<close>

text \<open>
  A location is the list of its segment names below the root.  \<open>path.resolve\<close> works
  through its arguments, an argument starting with \<open>/\<close> restarts from the root, the
  segments \<open>''\<close> and \<open>.\<close> are dropped and \<open>..\<close> steps up.  The script's first argument is
  always derived from \<open>__dirname\<close>, which is absolute, so the process's working
  directory is never consulted; the model resolves from the root.
\<close>

type_synonym path = "string list"

definition resolve_segment :: "path \<Rightarrow> string \<Rightarrow> path" where
  "resolve_segment p s =
     (if s = [] \<or> s = ''.'' then p else if s = ''..'' then butlast p else p @ [s])"

definition resolve_onto :: "path \<Rightarrow> string \<Rightarrow> path" where
  "resolve_onto base arg =
     foldl resolve_segment (if take 1 arg = ''/'' then [] else base) (js_split arg ''/'')"

definition resolve_path :: "string list \<Rightarrow> path" where
  "resolve_path args = foldl resolve_onto [] args"

definition render_path :: "path \<Rightarrow> string" where
  "render_path p = ''/'' @ js_join p ''/''"

definition resolve :: "string list \<Rightarrow> string" where
  "resolve args = render_path (resolve_path args)"

text \<open>
  \<open>posix.join\<close>: the non-empty arguments joined by \<open>/\<close> and normalised; a relative
  path keeps the \<open>..\<close> it cannot cancel, a trailing slash survives.
\<close>

definition normalize_segment :: "path \<Rightarrow> string \<Rightarrow> path" where
  "normalize_segment acc s =
     (if s = [] \<or> s = ''.'' then acc
      else if s = ''..'' then (if acc = [] \<or> last acc = ''..'' then acc @ [s] else butlast acc)
      else acc @ [s])"

definition posix_normalize :: "string \<Rightarrow> string" where
  "posix_normalize p =
     (let isAbsolute = (take 1 p = ''/'');
          trailing = (p \<noteq> [] \<and> last p = CHR ''/'');
          segs = foldl (if isAbsolute then resolve_segment else normalize_segment) []
                   (js_split p ''/'');
          body = js_join segs ''/''
      in if isAbsolute then ''/'' @ body @ (if trailing \<and> segs \<noteq> [] then ''/'' else [])
         else if body = [] then (if trailing then ''./'' else ''.'')
         else body @ (if trailing then ''/'' else []))"

definition posix_join :: "string list \<Rightarrow> string" where
  "posix_join args =
     (let parts = filter (\<lambda>a. a \<noteq> []) args
      in if parts = [] then ''.'' else posix_normalize (js_join parts ''/''))"

text \<open>
  The file system is a finite table from locations to nodes; a regular file carries its
  bytes.  A location listed twice counts with its first entry.  The root is always a
  directory.
\<close>

datatype node = File string | Dir

type_synonym fsys = "(path \<times> node) list"

definition node_of :: "fsys \<Rightarrow> path \<Rightarrow> node option" where
  "node_of fs p = (if p = [] then Some Dir else map_of fs p)"

definition node_at :: "fsys \<Rightarrow> string \<Rightarrow> node option" where
  "node_at fs s = node_of fs (resolve_path [s])"

fun is_file :: "node option \<Rightarrow> bool" where
  "is_file (Some (File b)) = True"
| "is_file other = False"

datatype error =
    Errno string string
  | JsError string
  | TypeError string
  | CommandFailed string nat

text \<open>The \<open>code\<close> property of a thrown value; only system errors carry one.\<close>

fun error_code :: "error \<Rightarrow> string option" where
  "error_code (Errno c p) = Some c"
| "error_code other = None"

text \<open>
  The environment of a run: \<open>__dirname\<close>; the shell behind \<open>execSync\<close>, which maps a
  command line, a working directory and the file system to an exit status and the file
  system it leaves; and the refusals of the operating system to remove a tree
  (permissions, files in use), given as the error code it answers with.
\<close>

record env =
  dirname :: string
  shell :: "string \<Rightarrow> string \<Rightarrow> fsys \<Rightarrow> nat \<times> fsys"
  removal_fault :: "string \<Rightarrow> string option"

text \<open>
  The state a run works on: the file system, and the command lines handed to
  \<open>execSync\<close> so far, oldest first.  Console output is not modelled.
\<close>

record world =
  disk :: fsys
  invocations :: "string list"

type_synonym 'a io = "world \<Rightarrow> (error + 'a) \<times> world"

definition io_return :: "'a \<Rightarrow> 'a io" where
  "io_return x w = (Inr x, w)"

definition io_bind :: "'a io \<Rightarrow> ('a \<Rightarrow> 'b io) \<Rightarrow> 'b io" where
  "io_bind m f w = (case m w of (Inl e, w') \<Rightarrow> (Inl e, w') | (Inr x, w') \<Rightarrow> f x w')"

text \<open>A \<open>for ... of\<close> loop: a throw in the body leaves the loop and the function.\<close>

fun io_for_each :: "('a \<Rightarrow> unit io) \<Rightarrow> 'a list \<Rightarrow> unit io" where
  "io_for_each body [] = io_return ()"
| "io_for_each body (x # xs) = io_bind (body x) (\<lambda>u. io_for_each body xs)"

definition read_fs :: "(fsys \<Rightarrow> error + 'a) \<Rightarrow> 'a io" where
  "read_fs f w = (f (disk w), w)"

definition write_fs :: "(fsys \<Rightarrow> error + fsys) \<Rightarrow> unit io" where
  "write_fs f w =
     (case f (disk w) of Inl e \<Rightarrow> (Inl e, w) | Inr fs' \<Rightarrow> (Inr (), w\<lparr>disk := fs'\<rparr>))"

subsection \<open>The primitives of \<open>fs\<close> and \<open>fs-extra\<close> the script calls\<close>

text \<open>\<open>readdirSync\<close>: the names of the entries of a directory, here in sorted order.\<close>

definition child_names :: "fsys \<Rightarrow> path \<Rightarrow> string list" where
  "child_names fs d =
     sort (remdups (map last (filter (\<lambda>p. p \<noteq> [] \<and> butlast p = d) (map fst fs))))"

definition readdirSync :: "fsys \<Rightarrow> string \<Rightarrow> error + string list" where
  "readdirSync fs s =
     (case node_at fs s of
        None \<Rightarrow> Inl (Errno ''ENOENT'' s)
      | Some (File b) \<Rightarrow> Inl (Errno ''ENOTDIR'' s)
      | Some Dir \<Rightarrow> Inr (child_names fs (resolve_path [s])))"

text \<open>\<open>Dirent.isDirectory()\<close> of the entry \<open>name\<close> read from directory \<open>s\<close>.\<close>

definition dirent_isDirectory :: "fsys \<Rightarrow> string \<Rightarrow> string \<Rightarrow> bool" where
  "dirent_isDirectory fs s name = (node_of fs (resolve_path [s] @ [name]) = Some Dir)"

text \<open>
  \<open>rmdirSync(p, { recursive: true })\<close>: a missing location is \<open>ENOENT\<close>, a regular file
  \<open>ENOTDIR\<close>; a directory goes with everything below it unless the operating system
  refuses.
\<close>

definition rmdirSync :: "env \<Rightarrow> fsys \<Rightarrow> string \<Rightarrow> error + fsys" where
  "rmdirSync E fs s =
     (case node_at fs s of
        None \<Rightarrow> Inl (Errno ''ENOENT'' s)
      | Some (File b) \<Rightarrow> Inl (Errno ''ENOTDIR'' s)
      | Some Dir \<Rightarrow>
          (case removal_fault E s of
             Some c \<Rightarrow> Inl (Errno c s)
           | None \<Rightarrow> Inr (filter (\<lambda>(p, n). \<not> prefix (resolve_path [s]) p) fs)))"

text \<open>\<open>mkdirSync(p, { recursive: true })\<close>: creates the missing ancestors and the directory.\<close>

definition mkdirSync :: "fsys \<Rightarrow> string \<Rightarrow> error + fsys" where
  "mkdirSync fs s =
     (let p = resolve_path [s];
          ancestors = map (\<lambda>n. take n p) [1..<Suc (length p)]
      in if \<exists>q \<in> set ancestors. is_file (node_of fs q)
         then Inl (Errno (if is_file (node_of fs p) then ''EEXIST'' else ''ENOTDIR'') s)
         else Inr (fs @ map (\<lambda>q. (q, Dir)) (filter (\<lambda>q. node_of fs q = None) ancestors)))"

text \<open>\<open>renameSync\<close>: moves a file, or a directory with its content.\<close>

definition moved :: "fsys \<Rightarrow> path \<Rightarrow> path \<Rightarrow> fsys" where
  "moved fs po pn =
     map (\<lambda>(p, n). (pn @ drop (length po) p, n)) (filter (\<lambda>(p, n). prefix po p) fs)
     @ filter (\<lambda>(p, n). \<not> prefix po p \<and> \<not> prefix pn p) fs"

definition renameSync :: "fsys \<Rightarrow> string \<Rightarrow> string \<Rightarrow> error + fsys" where
  "renameSync fs old new =
     (let po = resolve_path [old]; pn = resolve_path [new]
      in case node_at fs old of
           None \<Rightarrow> Inl (Errno ''ENOENT'' old)
         | Some n \<Rightarrow>
             if node_of fs (butlast pn) \<noteq> Some Dir then Inl (Errno ''ENOENT'' new)
             else if po = pn then Inr fs
             else if prefix po pn then Inl (Errno ''EINVAL'' old)
             else (case (n, node_of fs pn) of
                     (File b, Some Dir) \<Rightarrow> Inl (Errno ''EISDIR'' new)
                   | (Dir, Some (File b)) \<Rightarrow> Inl (Errno ''ENOTDIR'' new)
                   | (Dir, Some Dir) \<Rightarrow>
                       if child_names fs pn \<noteq> [] then Inl (Errno ''ENOTEMPTY'' new)
                       else Inr (moved fs po pn)
                   | other \<Rightarrow> Inr (moved fs po pn)))"

text \<open>
  \<open>copySync\<close> of \<open>fs-extra\<close>: the source must exist; the parent of the destination is
  created; a file is written over a file, a directory is merged into a directory, and
  a file meeting a directory (or a directory a file) is an error.  A failed copy is
  taken to leave the file system as it was.
\<close>

fun store :: "fsys \<Rightarrow> path \<times> node \<Rightarrow> fsys" where
  "store [] (p, n) = [(p, n)]"
| "store ((q, m) # fs) (p, n) = (if q = p then (p, n) # fs else (q, m) # store fs (p, n))"

fun clash :: "node \<Rightarrow> node option \<Rightarrow> bool" where
  "clash Dir (Some (File b)) = True"
| "clash (File b) (Some Dir) = True"
| "clash n other = False"

definition copySync :: "fsys \<Rightarrow> string \<Rightarrow> string \<Rightarrow> error + fsys" where
  "copySync fs src dest =
     (let ps = resolve_path [src]; pd = resolve_path [dest]
      in case node_at fs src of
           None \<Rightarrow> Inl (Errno ''ENOENT'' src)
         | Some n \<Rightarrow>
             if ps = pd then Inl (JsError ''Source and destination must not be the same.'')
             else if n = Dir \<and> prefix ps pd
               then Inl (JsError ''Cannot copy to a subdirectory of itself'')
             else (case mkdirSync fs (render_path (butlast pd)) of
                     Inl e \<Rightarrow> Inl e
                   | Inr fs1 \<Rightarrow>
                       (let items = map (\<lambda>(p, m). (pd @ drop (length ps) p, m))
                                      (filter (\<lambda>(p, m). (if n = Dir then prefix ps p else p = ps)
                                                 \<and> map_of fs p = Some m) fs)
                        in if \<exists>(q, m) \<in> set items. clash m (node_of fs1 q)
                           then Inl (JsError ''Cannot overwrite'')
                           else Inr (foldl store fs1 items))))"

text \<open>
  Modelled from the spec: the \<open>glob\<close> library is not part of the sources.  Section 4.1
  has discovery list, recursively, the source files below a directory, in a
  deterministic order, lexicographic on the relative path.  A pattern \<open>**/*.ext\<close>
  selects the regular files at any depth whose name ends in \<open>.ext\<close>; as in the
  library's default, a name starting with a dot is not matched.  The literal \<open>./\<close> of
  the pattern \<open>./**/*.sol\<close> stays in front of every match.
\<close>

definition glob_files :: "fsys \<Rightarrow> string \<Rightarrow> string \<Rightarrow> string \<Rightarrow> string list" where
  "glob_files fs cwd pre ext =
     (let d = resolve_path [cwd]
      in sort (map (\<lambda>p. pre @ js_join (drop (length d) p) ''/'')
           (filter (\<lambda>p. strict_prefix d p \<and> is_file (map_of fs p)
                       \<and> suffix ext (last p)
                       \<and> (\<forall>s \<in> set (drop (length d) p). take 1 s \<noteq> ''.''))
              (remdups (map fst fs)))))"

definition globSync :: "fsys \<Rightarrow> string \<Rightarrow> string \<Rightarrow> string list" where
  "globSync fs pattern cwd =
     (if pattern = ''./**/*.sol'' then glob_files fs cwd ''./'' ''.sol''
      else if pattern = ''**/*.json'' then glob_files fs cwd [] ''.json''
      else [])"

text \<open>
  \<open>execSync\<close>: runs the command; a non-zero exit status is thrown.  Every call is
  recorded, failed or not.
\<close>

definition execSync :: "env \<Rightarrow> string \<Rightarrow> string \<Rightarrow> unit io" where
  "execSync E command cwd w =
     (let (status, fs') = shell E command cwd (disk w);
          w' = w\<lparr>disk := fs', invocations := invocations w @ [command]\<rparr>
      in if status \<noteq> 0 then (Inl (CommandFailed command status), w') else (Inr (), w'))"

section \<open>The script\<close>

record files =
  rootDir :: string
  contractsDir :: string
  outDir :: string
  contracts :: "(string \<times> string list) list"
  prebuiltAbis :: "string list"

text \<open>\<open>findFiles\<close>, lines 22 to 50.\<close>

definition findFiles :: "env \<Rightarrow> fsys \<Rightarrow> error + files" where
  "findFiles E fs =
     (let root = resolve [dirname E, ''..''];
          cdir = resolve [root, ''contracts''];
          out = resolve [cdir, ''compiled'']
      in case readdirSync fs cdir of
           Inl e \<Rightarrow> Inl e
         | Inr names \<Rightarrow>
             (let solidityVersionDirs =
                    filter (\<lambda>d. dirent_isDirectory fs cdir d \<and> take 1 d = ''v'') names
              in Inr \<lparr> rootDir = root, contractsDir = cdir, outDir = out,
                       contracts = js_Map (map (\<lambda>version.
                          (version, globSync fs ''./**/*.sol'' (resolve [cdir, version])))
                          solidityVersionDirs),
                       prebuiltAbis = globSync fs ''**/*.json'' cdir \<rparr>))"

text \<open>\<open>removeOutDir\<close>, lines 54 to 64.\<close>

definition removeOutDir :: "env \<Rightarrow> files \<Rightarrow> unit io" where
  "removeOutDir E F w =
     (case rmdirSync E (disk w) (outDir F) of
        Inl e \<Rightarrow> if error_code e \<noteq> Some ''ENOENT'' then (Inl e, w) else (Inr (), w)
      | Inr fs' \<Rightarrow> (Inr (), w\<lparr>disk := fs'\<rparr>))"

text \<open>\<open>generateABIs\<close>, lines 66 to 83; \<open>compile_command\<close> is the template of line 76.\<close>

definition compile_command :: "string \<Rightarrow> string list \<Rightarrow> string" where
  "compile_command dirName filePaths =
     (let semver = (if take 1 dirName = ''v'' then ''^'' @ drop 1 dirName else dirName);
          contractPaths = js_join (map (\<lambda>s. posix_join [''contracts'', dirName, s]) filePaths) '' ''
      in ''pnpm --package solc@'' @ semver @ '' dlx solcjs --abi '' @ contractPaths
           @ '' --bin -o ./contracts/compiled/'' @ dirName)"

definition generateABIs :: "env \<Rightarrow> files \<Rightarrow> unit io" where
  "generateABIs E F =
     io_for_each (\<lambda>(dirName, filePaths).
        execSync E (compile_command dirName filePaths) (rootDir F)) (contracts F)"

section \<open>recoverDirectories\<close>

text \<open>
  The loop of \<open>recoverDirectories\<close> (lines 147 to 161) with its three variables \<open>res\<close>,
  \<open>segments\<close> and \<open>i\<close>.  \<open>statSync(...).isDirectory()\<close> inside \<open>try ... catch {}\<close> is
  true exactly when the resolved location holds a directory.  Falling out of the loop
  reaches the \<open>throw\<close> of line 163.
\<close>

function recover_loop :: "fsys \<Rightarrow> string \<Rightarrow> string \<Rightarrow> string list \<Rightarrow> nat \<Rightarrow> error + string" where
  "recover_loop fs cwd res segments i =
     (if segments \<noteq> [] \<and> i < 5 then
        (let segment = hd segments; rest = tl segments;
             isDirectory = (node_at fs (resolve [cwd, res, segment]) = Some Dir)
         in if isDirectory then recover_loop fs cwd (res @ segment @ ''/'') rest (i + 1)
            else if rest \<noteq> []
              then recover_loop fs cwd res ((segment @ ''_'' @ hd rest) # tl rest) (i + 1)
              else Inr (res @ segment))
      else Inl (JsError ''unexpected exit''))"
  by pat_completeness auto
termination
  by (relation "measure (\<lambda>(fs, cwd, res, segments, i). 5 - i)") auto

definition recoverDirectories :: "fsys \<Rightarrow> string \<Rightarrow> string \<Rightarrow> error + string" where
  "recoverDirectories fs cwd path = recover_loop fs cwd ''./'' (js_split path ''_'') 0"

section \<open>Renaming and copying\<close>

text \<open>
  Lines 101 to 108 of \<open>renameOutputNames\<close>: the flattened name is cut into the file
  path, the contract name and the extension.  A name without \<open>_sol_\<close> leaves
  \<open>contractName\<close> undefined, and calling \<open>split\<close> on it is a \<open>TypeError\<close>; a contract
  part without a dot leaves \<open>extension\<close> undefined.
\<close>

definition parse_output :: "fsys \<Rightarrow> string \<Rightarrow> string \<Rightarrow> string \<Rightarrow> error + (string \<times> string \<times> string option)" where
  "parse_output fs cdir version outputPath =
     (let DIRECTORY_PREFIX = ''contracts_'' @ version @ ''_'';
          relativePath = drop (length DIRECTORY_PREFIX) outputPath;
          parts = js_split relativePath ''_sol_''
      in case js_index parts 1 of
           None \<Rightarrow> Inl (TypeError ''Cannot read properties of undefined'')
         | Some contractPart \<Rightarrow>
             (let contractName = hd (js_split contractPart ''.'');
                  extension = js_index (js_split contractPart ''.'') 1;
                  contractsRootDir = cdir @ ''/'' @ version
              in case recoverDirectories fs contractsRootDir (hd parts) of
                   Inl e \<Rightarrow> Inl e
                 | Inr filePath \<Rightarrow> Inr (filePath, contractName, extension)))"

text \<open>The body of the inner loop, lines 96 to 115; an undefined extension prints as \<open>undefined\<close>.\<close>

definition rename_output :: "files \<Rightarrow> string \<Rightarrow> string \<Rightarrow> string \<Rightarrow> unit io" where
  "rename_output F version directory outputPath =
     io_bind (read_fs (\<lambda>fs. parse_output fs (contractsDir F) version outputPath))
       (\<lambda>(filePath, contractName, extension).
          (let newName = filePath @ ''/'' @ contractName @ ''.''
                  @ (case extension of None \<Rightarrow> ''undefined'' | Some x \<Rightarrow> x)
           in io_bind (write_fs (\<lambda>fs. mkdirSync fs (resolve [directory, filePath])))
                (\<lambda>u. write_fs (\<lambda>fs. renameSync fs (resolve [directory, outputPath])
                                       (resolve [directory, newName])))))"

text \<open>\<open>renameOutputNames\<close>, lines 88 to 122.\<close>

definition renameOutputNames :: "files \<Rightarrow> unit io" where
  "renameOutputNames F =
     io_for_each (\<lambda>version.
        (let directory = resolve [outDir F, version]
         in io_bind (read_fs (\<lambda>fs. readdirSync fs directory))
              (\<lambda>outputs. io_for_each (rename_output F version directory) outputs)))
       (map fst (contracts F))"

text \<open>\<open>copyTruffleV5\<close>, lines 124 to 134.\<close>

definition copyTruffleV5 :: "files \<Rightarrow> unit io" where
  "copyTruffleV5 F =
     (let truffleV5ContractsDir = resolve [rootDir F, ''packages/target-truffle-v5-test/contracts'']
      in io_for_each (\<lambda>version.
           write_fs (\<lambda>fs. copySync fs (resolve [contractsDir F, version])
                                    (resolve [truffleV5ContractsDir, version])))
           [''v0.6.4''])"

text \<open>\<open>copyPrebuiltABIs\<close>, lines 136 to 140.\<close>

definition copyPrebuiltABIs :: "files \<Rightarrow> unit io" where
  "copyPrebuiltABIs F =
     io_for_each (\<lambda>filepath.
        write_fs (\<lambda>fs. copySync fs (resolve [contractsDir F, filepath])
                                 (resolve [outDir F, js_replace filepath ''.json'' ''.abi''])))
       (prebuiltAbis F)"

text \<open>\<open>main\<close>, lines 10 to 18.\<close>

definition pipeline :: "env \<Rightarrow> files \<Rightarrow> unit io" where
  "pipeline E F =
     io_bind (generateABIs E F) (\<lambda>u.
     io_bind (renameOutputNames F) (\<lambda>u.
     io_bind (copyTruffleV5 F) (\<lambda>u.
     copyPrebuiltABIs F)))"

definition main :: "env \<Rightarrow> unit io" where
  "main E =
     io_bind (read_fs (findFiles E)) (\<lambda>F.
     io_bind (removeOutDir E F) (\<lambda>u. pipeline E F))"

section \<open>Vocabulary of the properties\<close>

text \<open>A name a directory entry can bear and \<open>path.resolve\<close> keeps as one segment.\<close>

definition plain_name :: "string \<Rightarrow> bool" where
  "plain_name s = (s \<noteq> [] \<and> s \<noteq> ''.'' \<and> s \<noteq> ''..'' \<and> CHR ''/'' \<notin> set s)"

text \<open>The value of \<open>res\<close> once the directory segments \<open>ds\<close> are committed.\<close>

definition dir_text :: "string list \<Rightarrow> string" where
  "dir_text ds = ''./'' @ concat (map (\<lambda>d. d @ ''/'') ds)"

text \<open>
  The candidates probed on the way to a segment that contains underscores: its first
  token, the first two tokens rejoined, and so on, short of the segment itself.
\<close>

fun merged_prefixes :: "string \<Rightarrow> string list \<Rightarrow> string list" where
  "merged_prefixes cur [] = []"
| "merged_prefixes cur (t # ts) = cur # merged_prefixes (cur @ ''_'' @ t) ts"

definition underscore_prefixes :: "string \<Rightarrow> string list" where
  "underscore_prefixes s = merged_prefixes (hd (js_split s ''_'')) (tl (js_split s ''_''))"

text \<open>
  A source file \<open>ds/f.sol\<close> lies unambiguously below the location \<open>here\<close>: going down,
  every directory segment exists and none of the candidates probed before it is a
  directory beside it; at the end neither the file's base name \<open>f\<close> nor a candidate
  probed before it is a directory.
\<close>

fun layout_ok :: "fsys \<Rightarrow> path \<Rightarrow> string list \<Rightarrow> string \<Rightarrow> bool" where
  "layout_ok fs here [] f =
     ((\<forall>q \<in> set (underscore_prefixes f). node_of fs (here @ [q]) \<noteq> Some Dir)
      \<and> node_of fs (here @ [f]) \<noteq> Some Dir)"
| "layout_ok fs here (d # ds) f =
     ((\<forall>q \<in> set (underscore_prefixes d). node_of fs (here @ [q]) \<noteq> Some Dir)
      \<and> node_of fs (here @ [d]) = Some Dir
      \<and> layout_ok fs (here @ [d]) ds f)"

text \<open>
  A path segment the probing can take: no slash, and a first token that is a plain name
  (so the segment does not start with an underscore, \<open>._\<close> or \<open>.._\<close>).
\<close>

definition segment_ok :: "string \<Rightarrow> bool" where
  "segment_ok s = (CHR ''/'' \<notin> set s \<and> plain_name (hd (js_split s ''_'')))"

text \<open>
  Modelled from the spec: the compiler is not part of the sources.  Section 8 gives the
  name it writes for the interface \<open>name\<close> declared in the source file \<open>ds/f.sol\<close>:
  \<open>contracts_\<close>, the version, then the path with separators replaced by underscores,
  \<open>_sol_\<close>, the interface name, a dot and the extension.  The compiler writes the
  version with its dots flattened too, so the version text \<open>vtext\<close> is a parameter.
\<close>

definition flattened_name :: "string \<Rightarrow> string list \<Rightarrow> string \<Rightarrow> string \<Rightarrow> string" where
  "flattened_name vtext segs name ext =
     ''contracts_'' @ vtext @ ''_'' @ js_join segs ''_'' @ ''_sol_'' @ name @ ''.'' @ ext"

text \<open>A location made of plain names only, as \<open>path.resolve\<close> returns them.\<close>

definition clean_path :: "path \<Rightarrow> bool" where
  "clean_path p = (\<forall>s \<in> set p. plain_name s)"

text \<open>The command lines of \<open>generateABIs\<close>, one per version group, in the mapping's order.\<close>

definition commands :: "files \<Rightarrow> string list" where
  "commands F = map (\<lambda>(dirName, filePaths). compile_command dirName filePaths) (contracts F)"

text \<open>The location of the contracts root, \<open>contracts\<close> beside the script's directory.\<close>

definition contracts_root :: "env \<Rightarrow> path" where
  "contracts_root E = resolve_path [dirname E, ''..'', ''contracts'']"

section \<open>Sample environments and trees\<close>

text \<open>
  Concrete inputs on which the properties below are exercised.  The script lives in
  \<open>/r/scripts\<close>.  The compiler of \<open>stub_env\<close> creates the output directory of version
  \<open>v0.6.4\<close> and writes the interface of the contract \<open>A\<close> of \<open>A.sol\<close> there; the shell of \<open>failing_env\<close> always exits with status 1; the
  operating system of \<open>locked_env\<close> refuses every removal with \<open>EACCES\<close>.
\<close>

definition stub_env :: env where
  "stub_env = \<lparr> dirname = ''/r/scripts'',
       shell = (\<lambda>command cwd fs.
          case mkdirSync fs ''/r/contracts/compiled/v0.6.4'' of
            Inl e \<Rightarrow> (1, fs)
          | Inr fs' \<Rightarrow>
              (0, store fs' ([''r'', ''contracts'', ''compiled'', ''v0.6.4'',
                              ''contracts_v0_6_4_A_sol_A.abi''], File ''[]''))),
       removal_fault = (\<lambda>s. None) \<rparr>"

definition failing_env :: env where
  "failing_env = \<lparr> dirname = ''/r/scripts'', shell = (\<lambda>command cwd fs. (1, fs)),
       removal_fault = (\<lambda>s. None) \<rparr>"

definition locked_env :: env where
  "locked_env = \<lparr> dirname = ''/r/scripts'', shell = (\<lambda>command cwd fs. (0, fs)),
       removal_fault = (\<lambda>s. Some ''EACCES'') \<rparr>"

text \<open>A contracts root without version directories, before and after an output directory exists.\<close>

definition bare_tree :: fsys where
  "bare_tree = [([''r''], Dir), ([''r'', ''contracts''], Dir)]"

definition built_tree :: fsys where
  "built_tree = bare_tree @
     [([''r'', ''contracts'', ''compiled''], Dir),
      ([''r'', ''contracts'', ''compiled'', ''Old.abi''], File ''[]'')]"

definition bare_files :: files where
  "bare_files = \<lparr> rootDir = ''/r'', contractsDir = ''/r/contracts'',
       outDir = ''/r/contracts/compiled'', contracts = [], prebuiltAbis = [] \<rparr>"

text \<open>Two version groups, as discovery would return them.\<close>

definition two_groups :: files where
  "two_groups = \<lparr> rootDir = ''/r'', contractsDir = ''/r/contracts'',
       outDir = ''/r/contracts/compiled'',
       contracts = [(''v0.4.24'', [''./A.sol'']), (''v0.8.9'', [''./lib/B.sol''])],
       prebuiltAbis = [] \<rparr>"

text \<open>
  A source tree with the version directory \<open>v0.6.4\<close>, one source file and one prebuilt file whose name
  carries \<open>.json\<close> twice; and a source tree whose output directory holds a \<open>.json\<close>
  file from earlier.
\<close>

definition double_json_tree :: fsys where
  "double_json_tree =
     [([''r''], Dir), ([''r'', ''contracts''], Dir),
      ([''r'', ''contracts'', ''v0.6.4''], Dir),
      ([''r'', ''contracts'', ''v0.6.4'', ''A.sol''], File ''contract A {}''),
      ([''r'', ''contracts'', ''legacy''], Dir),
      ([''r'', ''contracts'', ''legacy'', ''Old.json.json''], File ''[]'')]"

definition stale_tree :: fsys where
  "stale_tree =
     [([''r''], Dir), ([''r'', ''contracts''], Dir),
      ([''r'', ''contracts'', ''v0.6.4''], Dir),
      ([''r'', ''contracts'', ''v0.6.4'', ''A.sol''], File ''contract A {}''),
      ([''r'', ''contracts'', ''compiled''], Dir),
      ([''r'', ''contracts'', ''compiled'', ''Stale.json''], File ''[]'')]"

text \<open>What discovery returns on \<open>double_json_tree\<close>, and that tree with its output directory.\<close>

definition double_json_files :: files where
  "double_json_files = \<lparr> rootDir = ''/r'', contractsDir = ''/r/contracts'',
       outDir = ''/r/contracts/compiled'', contracts = [(''v0.6.4'', [''./A.sol''])],
       prebuiltAbis = [''legacy/Old.json.json''] \<rparr>"

text \<open>What discovery returns on \<open>stale_tree\<close>.\<close>

definition stale_files :: files where
  "stale_files = \<lparr> rootDir = ''/r'', contractsDir = ''/r/contracts'',
       outDir = ''/r/contracts/compiled'', contracts = [(''v0.6.4'', [''./A.sol''])],
       prebuiltAbis = [''compiled/Stale.json''] \<rparr>"

text \<open>
  The states in which two runs in a row on \<open>double_json_tree\<close> end, and the state in
  which a run on \<open>stale_tree\<close> ends.
\<close>

definition after_first_run :: world where
  "after_first_run = \<lparr> disk =
     [([''r'', ''contracts'', ''compiled'', ''v0.6.4'', ''A'', ''A.abi''], File ''[]''),
      ([''r''], Dir),
      ([''r'', ''contracts''], Dir),
      ([''r'', ''contracts'', ''v0.6.4''], Dir),
      ([''r'', ''contracts'', ''v0.6.4'', ''A.sol''], File ''contract A {}''),
      ([''r'', ''contracts'', ''legacy''], Dir),
      ([''r'', ''contracts'', ''legacy'', ''Old.json.json''], File ''[]''),
      ([''r'', ''contracts'', ''compiled''], Dir),
      ([''r'', ''contracts'', ''compiled'', ''v0.6.4''], Dir),
      ([''r'', ''contracts'', ''compiled'', ''v0.6.4'', ''A''], Dir),
      ([''r'', ''packages''], Dir),
      ([''r'', ''packages'', ''target-truffle-v5-test''], Dir),
      ([''r'', ''packages'', ''target-truffle-v5-test'', ''contracts''], Dir),
      ([''r'', ''packages'', ''target-truffle-v5-test'', ''contracts'', ''v0.6.4''], Dir),
      ([''r'', ''packages'', ''target-truffle-v5-test'', ''contracts'', ''v0.6.4'', ''A.sol''], File ''contract A {}''),
      ([''r'', ''contracts'', ''compiled'', ''legacy''], Dir),
      ([''r'', ''contracts'', ''compiled'', ''legacy'', ''Old.abi.json''], File ''[]'')],
     invocations =
     [''pnpm --package solc@^0.6.4 dlx solcjs --abi contracts/v0.6.4/A.sol --bin -o ./contracts/compiled/v0.6.4''] \<rparr>"

definition after_second_run :: world where
  "after_second_run = \<lparr> disk =
     [([''r'', ''contracts'', ''compiled'', ''v0.6.4'', ''A'', ''A.abi''], File ''[]''),
      ([''r''], Dir),
      ([''r'', ''contracts''], Dir),
      ([''r'', ''contracts'', ''v0.6.4''], Dir),
      ([''r'', ''contracts'', ''v0.6.4'', ''A.sol''], File ''contract A {}''),
      ([''r'', ''contracts'', ''legacy''], Dir),
      ([''r'', ''contracts'', ''legacy'', ''Old.json.json''], File ''[]''),
      ([''r'', ''packages''], Dir),
      ([''r'', ''packages'', ''target-truffle-v5-test''], Dir),
      ([''r'', ''packages'', ''target-truffle-v5-test'', ''contracts''], Dir),
      ([''r'', ''packages'', ''target-truffle-v5-test'', ''contracts'', ''v0.6.4''], Dir),
      ([''r'', ''packages'', ''target-truffle-v5-test'', ''contracts'', ''v0.6.4'', ''A.sol''], File ''contract A {}''),
      ([''r'', ''contracts'', ''compiled''], Dir),
      ([''r'', ''contracts'', ''compiled'', ''v0.6.4''], Dir),
      ([''r'', ''contracts'', ''compiled'', ''v0.6.4'', ''A''], Dir)],
     invocations =
     [''pnpm --package solc@^0.6.4 dlx solcjs --abi contracts/v0.6.4/A.sol --bin -o ./contracts/compiled/v0.6.4'',
      ''pnpm --package solc@^0.6.4 dlx solcjs --abi contracts/v0.6.4/A.sol --bin -o ./contracts/compiled/v0.6.4''] \<rparr>"

definition after_stale_run :: world where
  "after_stale_run = \<lparr> disk =
     [([''r'', ''contracts'', ''compiled'', ''v0.6.4'', ''A'', ''A.abi''], File ''[]''),
      ([''r''], Dir),
      ([''r'', ''contracts''], Dir),
      ([''r'', ''contracts'', ''v0.6.4''], Dir),
      ([''r'', ''contracts'', ''v0.6.4'', ''A.sol''], File ''contract A {}''),
      ([''r'', ''contracts'', ''compiled''], Dir),
      ([''r'', ''contracts'', ''compiled'', ''v0.6.4''], Dir),
      ([''r'', ''contracts'', ''compiled'', ''v0.6.4'', ''A''], Dir),
      ([''r'', ''packages''], Dir),
      ([''r'', ''packages'', ''target-truffle-v5-test''], Dir),
      ([''r'', ''packages'', ''target-truffle-v5-test'', ''contracts''], Dir),
      ([''r'', ''packages'', ''target-truffle-v5-test'', ''contracts'', ''v0.6.4''], Dir),
      ([''r'', ''packages'', ''target-truffle-v5-test'', ''contracts'', ''v0.6.4'', ''A.sol''], File ''contract A {}'')],
     invocations =
     [''pnpm --package solc@^0.6.4 dlx solcjs --abi contracts/v0.6.4/A.sol --bin -o ./contracts/compiled/v0.6.4''] \<rparr>"

section \<open>Properties of the strings and of the segment probing\<close>

declare recover_loop.simps [simp del]

lemma recover_loop_stop:
  "segments = [] \<or> \<not> i < 5 \<Longrightarrow> recover_loop fs cwd res segments i = Inl (JsError ''unexpected exit'')"
  by (subst recover_loop.simps) auto

lemma recover_loop_commit:
  "i < 5 \<Longrightarrow> node_at fs (resolve [cwd, res, s]) = Some Dir \<Longrightarrow>
   recover_loop fs cwd res (s # rest) i = recover_loop fs cwd (res @ s @ ''/'') rest (Suc i)"
  by (subst recover_loop.simps) auto

lemma recover_loop_merge:
  "i < 5 \<Longrightarrow> node_at fs (resolve [cwd, res, s]) \<noteq> Some Dir \<Longrightarrow>
   recover_loop fs cwd res (s # t # ts) i = recover_loop fs cwd res ((s @ ''_'' @ t) # ts) (Suc i)"
  by (subst recover_loop.simps) auto

lemma recover_loop_return:
  "i < 5 \<Longrightarrow> node_at fs (resolve [cwd, res, s]) \<noteq> Some Dir \<Longrightarrow>
   recover_loop fs cwd res [s] i = Inr (res @ s)"
  by (subst recover_loop.simps) auto

lemma recover_loop_budget:
  "5 < length segments + i \<Longrightarrow> recover_loop fs cwd res segments i = Inl (JsError ''unexpected exit'')"
proof (induction segments arbitrary: res i rule: length_induct)
  case (1 segments)
  show ?case
  proof (cases "i < 5")
    case False
    then show ?thesis by (simp add: recover_loop_stop)
  next
    case True
    with "1.prems" obtain s t ts where sg: "segments = s # t # ts"
      by (cases segments; cases "tl segments") auto
    show ?thesis
    proof (cases "node_at fs (resolve [cwd, res, s]) = Some Dir")
      case d: True
      have "recover_loop fs cwd (res @ s @ ''/'') (t # ts) (Suc i) = Inl (JsError ''unexpected exit'')"
        using "1.IH" sg "1.prems" by simp
      then show ?thesis using True sg d by (simp add: recover_loop_commit)
    next
      case nd: False
      have "recover_loop fs cwd res ((s @ ''_'' @ t) # ts) (Suc i) = Inl (JsError ''unexpected exit'')"
        using "1.IH" sg "1.prems" by simp
      then show ?thesis using True sg nd by (simp add: recover_loop_merge)
    qed
  qed
qed

lemma length_js_split_from:
  "length (js_split_from [c] acc s) = Suc (length (filter (\<lambda>x. x = c) s))"
  by (induction s arbitrary: acc) auto

lemma count_js_join:
  "length xs - 1 \<le> length (filter (\<lambda>x. x = c) (js_join xs [c]))"
  by (induction xs "[c]" rule: js_join.induct) auto

lemma js_join_merge: "js_join ((s @ sep @ t) # ts) sep = js_join (s # t # ts) sep"
  by (cases ts) auto

lemma js_split_from_nonempty: "js_split_from sep acc s \<noteq> []"
  by (induction s arbitrary: acc) auto
lemma js_join_Cons: "rest \<noteq> [] \<Longrightarrow> js_join (s # rest) sep = s @ sep @ js_join rest sep"
  by (cases rest) auto
lemma js_join_split_from: "js_join (js_split_from [c] acc s) [c] = acc @ s"
proof (induction s arbitrary: acc)
  case Nil show ?case by simp
next
  case (Cons x xs)
  have ne: "js_split_from [c] [] xs \<noteq> []" by (rule js_split_from_nonempty)
  show ?case
  proof (cases "x = c")
    case True
    then show ?thesis using Cons[of "[]"] ne by (simp add: js_join_Cons)
  next
    case False
    then show ?thesis using Cons[of "acc @ [x]"] by simp
  qed
qed

lemma js_join_split: "js_join (js_split s [c]) [c] = s"
  by (simp add: js_split_def js_join_split_from)


lemma recover_loop_Inr_cases:
  assumes "recover_loop fs cwd res segments i = Inr r"
  obtains s rest where "segments = s # rest" "i < 5"
proof -
  have "segments \<noteq> [] \<and> i < 5"
  proof (rule ccontr)
    assume "\<not> (segments \<noteq> [] \<and> i < 5)"
    then have "recover_loop fs cwd res segments i = Inl (JsError ''unexpected exit'')"
      by (intro recover_loop_stop) blast
    with assms show False by simp
  qed
  then show ?thesis using that by (cases segments) auto
qed

lemma recover_loop_all_committed:
  "\<forall>k < length ts. node_at fs (resolve [cwd, res @ concat (map (\<lambda>d. d @ ''/'') (take k ts)), ts ! k]) = Some Dir
   \<Longrightarrow> recover_loop fs cwd res ts i = Inl (JsError ''unexpected exit'')"
proof (induction ts arbitrary: res i)
  case Nil
  show ?case by (simp add: recover_loop_stop)
next
  case (Cons t ts)
  show ?case
  proof (cases "i < 5")
    case False
    then show ?thesis by (simp add: recover_loop_stop)
  next
    case True
    have d: "node_at fs (resolve [cwd, res, t]) = Some Dir" using Cons.prems[rule_format, of 0] by simp
    have "recover_loop fs cwd (res @ t @ ''/'') ts (Suc i) = Inl (JsError ''unexpected exit'')"
    proof (rule Cons.IH, intro allI impI)
      fix k assume "k < length ts"
      then show "node_at fs (resolve [cwd, (res @ t @ ''/'') @ concat (map (\<lambda>d. d @ ''/'') (take k ts)), ts ! k]) = Some Dir"
        using Cons.prems[rule_format, of "Suc k"] by simp
    qed
    then show ?thesis using recover_loop_commit[OF True d] by simp
  qed
qed

subsection \<open>Splitting, joining and resolving\<close>

lemma js_split_from_single:
  "js_split_from [c] acc (x # xs) =
     (if x = c then acc # js_split_from [c] [] xs else js_split_from [c] (acc @ [x]) xs)"
  by simp

lemma js_split_from_no_sep: "c \<notin> set s \<Longrightarrow> js_split_from [c] acc s = [acc @ s]"
  by (induction s arbitrary: acc) auto

lemma js_split_from_append:
  "js_split_from [c] acc (a @ c # b) = js_split_from [c] acc a @ js_split_from [c] [] b"
  by (induction a arbitrary: acc) auto

lemma js_split_from_acc:
  "js_split_from [c] acc s = (acc @ hd (js_split_from [c] [] s)) # tl (js_split_from [c] [] s)"
proof (induction s arbitrary: acc)
  case Nil show ?case by simp
next
  case (Cons x xs)
  show ?case
  proof (cases "x = c")
    case True then show ?thesis by simp
  next
    case False
    then show ?thesis using Cons[of "acc @ [x]"] Cons[of "[x]"] by simp
  qed
qed

lemma js_split_pieces: "c \<notin> set acc \<Longrightarrow> x \<in> set (js_split_from [c] acc s) \<Longrightarrow> c \<notin> set x"
proof (induction s arbitrary: acc)
  case Nil then show ?case by simp
next
  case (Cons a s)
  show ?case
  proof (cases "a = c")
    case True
    with Cons.prems have "x = acc \<or> x \<in> set (js_split_from [c] [] s)" by simp
    then show ?thesis using Cons.IH[of "[]"] Cons.prems(1) by auto
  next
    case False
    with Cons.prems have "x \<in> set (js_split_from [c] (acc @ [a]) s)" by simp
    then show ?thesis using Cons.IH[of "acc @ [a]"] Cons.prems(1) False by auto
  qed
qed

lemma js_split_join:
  "xs \<noteq> [] \<Longrightarrow> js_split (js_join xs [c]) [c] = concat (map (\<lambda>s. js_split s [c]) xs)"
proof (induction xs "[c]" rule: js_join.induct)
  case 1 then show ?case by simp
next
  case (2 x) show ?case by simp
next
  case (3 x y ys)
  then show ?case by (simp add: js_split_def js_split_from_append)
qed

lemma js_split_join_plain:
  "xs \<noteq> [] \<Longrightarrow> \<forall>x \<in> set xs. c \<notin> set x \<Longrightarrow> js_split (js_join xs [c]) [c] = xs"
proof (induction xs "[c]" rule: js_join.induct)
  case 1 then show ?case by simp
next
  case (2 x) then show ?case by (simp add: js_split_def js_split_from_no_sep)
next
  case (3 x y ys)
  then show ?case by (simp add: js_split_def js_split_from_append js_split_from_no_sep)
qed

lemma resolve_segment_clean:
  "clean_path p \<Longrightarrow> CHR ''/'' \<notin> set s \<Longrightarrow> clean_path (resolve_segment p s)"
  by (auto simp: clean_path_def resolve_segment_def plain_name_def dest: in_set_butlastD)

lemma foldl_resolve_segment_clean:
  "clean_path p \<Longrightarrow> \<forall>s \<in> set xs. CHR ''/'' \<notin> set s \<Longrightarrow> clean_path (foldl resolve_segment p xs)"
  by (induction xs arbitrary: p) (auto simp: resolve_segment_clean)

lemma resolve_onto_clean: "clean_path p \<Longrightarrow> clean_path (resolve_onto p arg)"
proof -
  assume c: "clean_path p"
  have pieces: "\<forall>s \<in> set (js_split arg ''/''). CHR ''/'' \<notin> set s"
    unfolding js_split_def using js_split_pieces[of "CHR ''/''" "[]" _ arg] by auto
  have "clean_path []" by (simp add: clean_path_def)
  then show ?thesis unfolding resolve_onto_def using c pieces
    by (auto intro: foldl_resolve_segment_clean)
qed

lemma foldl_resolve_onto_clean: "clean_path p \<Longrightarrow> clean_path (foldl resolve_onto p args)"
  by (induction args arbitrary: p) (auto simp: resolve_onto_clean)

lemma resolve_path_clean: "clean_path (resolve_path args)"
  unfolding resolve_path_def by (rule foldl_resolve_onto_clean) (simp add: clean_path_def)

lemma foldl_resolve_segment_plain:
  "clean_path xs \<Longrightarrow> foldl resolve_segment p xs = p @ xs"
  by (induction xs arbitrary: p) (auto simp: clean_path_def resolve_segment_def plain_name_def)

lemma resolve_path_render: "clean_path p \<Longrightarrow> resolve_path [render_path p] = p"
proof (cases p)
  case Nil
  then show ?thesis
    by (simp add: resolve_path_def resolve_onto_def render_path_def js_split_def resolve_segment_def)
next
  case (Cons a as)
  assume c: "clean_path p"
  then have nosl: "\<forall>x \<in> set p. CHR ''/'' \<notin> set x" by (auto simp: clean_path_def plain_name_def)
  have "js_split (js_join p ''/'') ''/'' = p"
    using js_split_join_plain[of p "CHR ''/''"] nosl Cons by simp
  then have "js_split (render_path p) ''/'' = [] # p"
    by (simp add: render_path_def js_split_def)
  then show ?thesis using c
    by (simp add: resolve_path_def resolve_onto_def render_path_def foldl_resolve_segment_plain
        resolve_segment_def)
qed

lemma resolve_path_Cons_render:
  "clean_path p \<Longrightarrow> resolve_path (render_path p # args) = foldl resolve_onto p args"
  using resolve_path_render[of p] by (simp add: resolve_path_def)

lemma resolve_path_resolve: "resolve_path [resolve args] = resolve_path args"
  unfolding resolve_def by (rule resolve_path_render) (rule resolve_path_clean)

lemma resolve_path_resolve_Cons:
  "resolve_path (resolve args # more_args) = foldl resolve_onto (resolve_path args) more_args"
  unfolding resolve_def by (rule resolve_path_Cons_render) (rule resolve_path_clean)

lemma node_at_resolve: "node_at fs (resolve args) = node_of fs (resolve_path args)"
  by (simp add: node_at_def resolve_path_resolve)

lemma resolve_path_snoc: "resolve_path (args @ [a]) = resolve_onto (resolve_path args) a"
  by (simp add: resolve_path_def)

lemma resolve_onto_plain: "plain_name s \<Longrightarrow> resolve_onto p s = p @ [s]"
proof -
  assume pl: "plain_name s"
  then have "js_split s ''/'' = [s]"
    by (simp add: js_split_def js_split_from_no_sep plain_name_def)
  moreover have "take 1 s \<noteq> ''/''" using pl by (cases s) (auto simp: plain_name_def)
  ultimately show ?thesis using pl
    by (simp add: resolve_onto_def resolve_segment_def plain_name_def)
qed

lemma js_split_dirs:
  "\<forall>d \<in> set ds. CHR ''/'' \<notin> set d \<Longrightarrow>
   js_split_from ''/'' [] (concat (map (\<lambda>d. d @ ''/'') ds)) = ds @ [[]]"
proof (induction ds)
  case Nil show ?case by simp
next
  case (Cons d ds)
  have "js_split_from ''/'' [] (d @ CHR ''/'' # concat (map (\<lambda>d. d @ ''/'') ds))
        = js_split_from ''/'' [] d @ js_split_from ''/'' [] (concat (map (\<lambda>d. d @ ''/'') ds))"
    by (rule js_split_from_append)
  then show ?case using Cons by (simp add: js_split_from_no_sep)
qed

lemma resolve_onto_dir_text: "clean_path ds \<Longrightarrow> resolve_onto p (dir_text ds) = p @ ds"
proof -
  assume c: "clean_path ds"
  then have nosl: "\<forall>d \<in> set ds. CHR ''/'' \<notin> set d" by (auto simp: clean_path_def plain_name_def)
  have "js_split (dir_text ds) ''/'' = ''.'' # ds @ [[]]"
    using js_split_dirs[OF nosl] by (simp add: dir_text_def js_split_def)
  then show ?thesis using c
    by (simp add: resolve_onto_def dir_text_def foldl_resolve_segment_plain resolve_segment_def)
qed

lemma probe_location:
  "clean_path ds \<Longrightarrow> plain_name q \<Longrightarrow>
   node_at fs (resolve [cwd, dir_text ds, q]) = node_of fs (resolve_path [cwd] @ ds @ [q])"
proof -
  assume c: "clean_path ds" and q: "plain_name q"
  have "resolve_path [cwd, dir_text ds, q]
        = resolve_onto (resolve_onto (resolve_path [cwd]) (dir_text ds)) q"
    by (simp add: resolve_path_def)
  then show ?thesis using c q
    by (simp add: node_at_resolve resolve_onto_dir_text resolve_onto_plain)
qed

subsection \<open>Probing along an unambiguous layout\<close>

lemma merged_prefixes_shape:
  "q \<in> set (merged_prefixes cur ts) \<Longrightarrow> q = cur \<or> (\<exists>r. q = cur @ ''_'' @ r)"
proof (induction ts arbitrary: cur)
  case Nil then show ?case by simp
next
  case (Cons t ts)
  then show ?case by (auto dest!: Cons.IH)
qed

lemma merged_prefixes_chars:
  "q \<in> set (merged_prefixes cur ts) \<Longrightarrow> set q \<subseteq> set (js_join (cur # ts) ''_'')"
proof (induction ts arbitrary: cur)
  case Nil then show ?case by simp
next
  case (Cons t ts)
  from Cons.prems have "q = cur \<or> q \<in> set (merged_prefixes (cur @ ''_'' @ t) ts)" by simp
  then show ?case
  proof
    assume "q = cur" then show ?thesis by auto
  next
    assume "q \<in> set (merged_prefixes (cur @ ''_'' @ t) ts)"
    then have "set q \<subseteq> set (js_join ((cur @ ''_'' @ t) # ts) ''_'')" by (rule Cons.IH)
    then show ?thesis by (simp only: js_join_merge)
  qed
qed

lemma split_hd_tl: "js_split s ''_'' = hd (js_split s ''_'') # tl (js_split s ''_'')"
  by (simp add: js_split_def js_split_from_nonempty)

lemma join_hd_tl: "js_join (hd (js_split s ''_'') # tl (js_split s ''_'')) ''_'' = s"
  using js_join_split[of s "CHR ''_''"] split_hd_tl[of s] by simp

lemma plain_with_underscore: "plain_name t \<Longrightarrow> CHR ''/'' \<notin> set r \<Longrightarrow> plain_name (t @ ''_'' @ r)"
  by (cases t; cases "tl t"; cases "tl (tl t)") (auto simp: plain_name_def)

lemma underscore_prefixes_plain:
  assumes "segment_ok s" "q \<in> set (underscore_prefixes s)"
  shows "plain_name q"
proof -
  let ?t = "hd (js_split s ''_'')" and ?ts = "tl (js_split s ''_'')"
  have pl: "plain_name ?t" and nosl: "CHR ''/'' \<notin> set s" using assms(1) by (auto simp: segment_ok_def)
  have q: "q \<in> set (merged_prefixes ?t ?ts)" using assms(2) by (simp add: underscore_prefixes_def)
  have "set q \<subseteq> set s" using merged_prefixes_chars[OF q] by (simp only: join_hd_tl)
  then have qs: "CHR ''/'' \<notin> set q" using nosl by auto
  from merged_prefixes_shape[OF q] show ?thesis
  proof
    assume "q = ?t" then show ?thesis using pl by simp
  next
    assume "\<exists>r. q = ?t @ ''_'' @ r"
    then obtain r where r: "q = ?t @ ''_'' @ r" by blast
    then have "CHR ''/'' \<notin> set r" using qs by auto
    then show ?thesis unfolding r using pl by (rule plain_with_underscore[rotated])
  qed
qed

lemma segment_ok_plain: "segment_ok s \<Longrightarrow> plain_name s"
proof -
  assume ok: "segment_ok s"
  let ?t = "hd (js_split s ''_'')" and ?ts = "tl (js_split s ''_'')"
  have pl: "plain_name ?t" and nosl: "CHR ''/'' \<notin> set s" using ok by (auto simp: segment_ok_def)
  show ?thesis
  proof (cases ?ts)
    case Nil
    then have "s = ?t" using join_hd_tl[of s] by simp
    then show ?thesis using pl by simp
  next
    case (Cons u us)
    then have s: "s = ?t @ ''_'' @ js_join (u # us) ''_''"
      using join_hd_tl[of s] by (simp add: js_join_Cons)
    then have "CHR ''/'' \<notin> set (js_join (u # us) ''_'')" using nosl
      by (metis Un_iff set_append)
    then show ?thesis using pl s plain_with_underscore by metis
  qed
qed

lemma recover_loop_assemble:
  "\<forall>q \<in> set (merged_prefixes cur ts). node_at fs (resolve [cwd, res, q]) \<noteq> Some Dir \<Longrightarrow>
   i + length ts \<le> 5 \<Longrightarrow>
   recover_loop fs cwd res (cur # ts @ later) i
     = recover_loop fs cwd res (js_join (cur # ts) ''_'' # later) (i + length ts)"
proof (induction ts arbitrary: cur i)
  case Nil show ?case by simp
next
  case (Cons t ts)
  have lt: "i < 5" using Cons.prems(2) by simp
  have nd: "node_at fs (resolve [cwd, res, cur]) \<noteq> Some Dir" using Cons.prems(1) by simp
  have "recover_loop fs cwd res (cur # (t # ts) @ later) i
        = recover_loop fs cwd res ((cur @ ''_'' @ t) # ts @ later) (Suc i)"
    using recover_loop_merge[OF lt nd] by simp
  also have "\<dots> = recover_loop fs cwd res (js_join ((cur @ ''_'' @ t) # ts) ''_'' # later) (Suc i + length ts)"
    using Cons.prems by (intro Cons.IH) auto
  finally show ?case by (simp only: js_join_merge) simp
qed

lemma dir_text_snoc: "dir_text (ds @ [d]) = dir_text ds @ d @ ''/''"
  by (simp add: dir_text_def)

lemma recover_loop_layout:
  "\<forall>s \<in> set (up @ ds @ [f]). segment_ok s \<Longrightarrow>
   layout_ok fs (resolve_path [cwd] @ up) ds f \<Longrightarrow>
   i + length (concat (map (\<lambda>s. js_split s ''_'') (ds @ [f]))) \<le> 5 \<Longrightarrow>
   recover_loop fs cwd (dir_text up) (concat (map (\<lambda>s. js_split s ''_'') (ds @ [f]))) i
     = Inr (dir_text up @ js_join (ds @ [f]) ''/'')"
proof (induction ds arbitrary: up i)
  case Nil
  let ?t = "hd (js_split f ''_'')" and ?ts = "tl (js_split f ''_'')"
  have cl: "clean_path up" using Nil.prems(1) by (auto simp: clean_path_def segment_ok_plain)
  have fok: "segment_ok f" using Nil.prems(1) by simp
  have "length (js_split f ''_'') = Suc (length ?ts)"
    using split_hd_tl[of f] by (metis length_Cons)
  then have budget: "i + length ?ts < 5" using Nil.prems(3) by simp
  have cands: "\<forall>q \<in> set (merged_prefixes ?t ?ts). node_at fs (resolve [cwd, dir_text up, q]) \<noteq> Some Dir"
  proof
    fix q assume q: "q \<in> set (merged_prefixes ?t ?ts)"
    then have "q \<in> set (underscore_prefixes f)" by (simp add: underscore_prefixes_def)
    then show "node_at fs (resolve [cwd, dir_text up, q]) \<noteq> Some Dir"
      using Nil.prems(2) underscore_prefixes_plain[OF fok] probe_location[OF cl] by simp
  qed
  have nf: "node_at fs (resolve [cwd, dir_text up, f]) \<noteq> Some Dir"
    using Nil.prems(2) probe_location[OF cl segment_ok_plain[OF fok]] by simp
  have "recover_loop fs cwd (dir_text up) (js_split f ''_'') i
        = recover_loop fs cwd (dir_text up) (?t # ?ts @ []) i"
    using split_hd_tl[of f] by simp
  also have "\<dots> = recover_loop fs cwd (dir_text up) (js_join (?t # ?ts) ''_'' # []) (i + length ?ts)"
    using cands budget by (intro recover_loop_assemble) auto
  also have "\<dots> = recover_loop fs cwd (dir_text up) [f] (i + length ?ts)"
    by (simp only: join_hd_tl)
  also have "\<dots> = Inr (dir_text up @ f)"
    using budget nf by (rule recover_loop_return)
  finally show ?case by simp
next
  case (Cons d ds)
  let ?t = "hd (js_split d ''_'')" and ?ts = "tl (js_split d ''_'')"
  let ?later = "concat (map (\<lambda>s. js_split s ''_'') (ds @ [f]))"
  have cl: "clean_path up" using Cons.prems(1) by (auto simp: clean_path_def segment_ok_plain)
  have dok: "segment_ok d" using Cons.prems(1) by simp
  have fne: "js_split f ''_'' \<noteq> []" by (simp add: js_split_def js_split_from_nonempty)
  have later_ne: "?later \<noteq> []" using fne by simp
  have "length (js_split d ''_'') = Suc (length ?ts)"
    using split_hd_tl[of d] by (metis length_Cons)
  then have len: "length (concat (map (\<lambda>s. js_split s ''_'') ((d # ds) @ [f])))
             = Suc (length ?ts) + length ?later"
    by simp
  have budget: "i + length ?ts < 5" using Cons.prems(3) len later_ne
    by (cases ?later) auto
  have cands: "\<forall>q \<in> set (merged_prefixes ?t ?ts). node_at fs (resolve [cwd, dir_text up, q]) \<noteq> Some Dir"
  proof
    fix q assume q: "q \<in> set (merged_prefixes ?t ?ts)"
    then have "q \<in> set (underscore_prefixes d)" by (simp add: underscore_prefixes_def)
    then show "node_at fs (resolve [cwd, dir_text up, q]) \<noteq> Some Dir"
      using Cons.prems(2) underscore_prefixes_plain[OF dok] probe_location[OF cl] by simp
  qed
  have isd: "node_at fs (resolve [cwd, dir_text up, d]) = Some Dir"
    using Cons.prems(2) probe_location[OF cl segment_ok_plain[OF dok]] by simp
  have "recover_loop fs cwd (dir_text up) (concat (map (\<lambda>s. js_split s ''_'') ((d # ds) @ [f]))) i
        = recover_loop fs cwd (dir_text up) (?t # ?ts @ ?later) i"
  proof -
    have "concat (map (\<lambda>s. js_split s ''_'') ((d # ds) @ [f])) = js_split d ''_'' @ ?later" by simp
    also have "js_split d ''_'' = ?t # ?ts" by (rule split_hd_tl)
    finally have e: "concat (map (\<lambda>s. js_split s ''_'') ((d # ds) @ [f])) = ?t # ?ts @ ?later"
      by (simp only: append_Cons)
    show ?thesis by (simp only: e)
  qed
  also have "\<dots> = recover_loop fs cwd (dir_text up) (js_join (?t # ?ts) ''_'' # ?later) (i + length ?ts)"
    using cands budget by (intro recover_loop_assemble) auto
  also have "\<dots> = recover_loop fs cwd (dir_text up) (d # ?later) (i + length ?ts)"
    by (simp only: join_hd_tl)
  also have "\<dots> = recover_loop fs cwd (dir_text (up @ [d])) ?later (Suc (i + length ?ts))"
    using recover_loop_commit[OF budget isd] by (simp add: dir_text_snoc)
  also have "\<dots> = Inr (dir_text (up @ [d]) @ js_join (ds @ [f]) ''/'')"
  proof (rule Cons.IH)
    show "\<forall>s \<in> set ((up @ [d]) @ ds @ [f]). segment_ok s" using Cons.prems(1) by auto
    show "layout_ok fs (resolve_path [cwd] @ up @ [d]) ds f" using Cons.prems(2) by simp
    show "Suc (i + length ?ts) + length ?later \<le> 5" using Cons.prems(3) len by simp
  qed
  also have "dir_text (up @ [d]) @ js_join (ds @ [f]) ''/'' = dir_text up @ js_join ((d # ds) @ [f]) ''/''"
    by (cases ds) (simp_all add: dir_text_snoc)
  finally show ?case .
qed

lemma js_split_from_no_occurrence:
  "sep \<noteq> [] \<Longrightarrow> \<not> sublist sep s \<Longrightarrow> js_split_from sep acc s = [acc @ s]"
proof (induction s arbitrary: acc)
  case Nil show ?case by simp
next
  case (Cons c cs)
  have "take (length sep) (c # cs) \<noteq> sep"
  proof
    assume "take (length sep) (c # cs) = sep"
    then have "prefix sep (c # cs)" by (metis take_is_prefix)
    then have "sublist sep (c # cs)" by (rule prefix_imp_sublist)
    then show False using Cons.prems(2) by simp
  qed
  moreover have "\<not> sublist sep cs" using Cons.prems(2) by (auto simp: sublist_Cons_right)
  ultimately show ?case using Cons.IH[of "acc @ [c]"] Cons.prems(1) by simp
qed

lemma take_le_append: "n \<le> length xs \<Longrightarrow> take n (xs @ ys) = take n xs"
  by simp

lemma js_split_from_first_occurrence:
  "sep \<noteq> [] \<Longrightarrow> \<not> sublist sep (a @ butlast sep) \<Longrightarrow>
   js_split_from sep acc (a @ sep @ b) = (acc @ a) # js_split_from sep [] b"
proof (induction a arbitrary: acc)
  case Nil
  then obtain c cs where sep: "sep = c # cs" by (cases sep) auto
  show ?case unfolding sep by simp
next
  case (Cons x a)
  have "take (length sep) ((x # a) @ sep @ b) \<noteq> sep"
  proof
    assume eq: "take (length sep) ((x # a) @ sep @ b) = sep"
    have "sep = butlast sep @ [last sep]" using Cons.prems(1) by simp
    then have A: "(x # a) @ sep @ b = ((x # a) @ butlast sep) @ last sep # b"
      by (metis append.assoc append_Cons append_Nil)
    have le: "length sep \<le> length ((x # a) @ butlast sep)" by simp
    have "take (length sep) ((x # a) @ butlast sep)
          = take (length sep) (((x # a) @ butlast sep) @ last sep # b)"
      using le by (rule take_le_append[symmetric])
    also have "\<dots> = take (length sep) ((x # a) @ sep @ b)" by (simp only: A)
    also have "\<dots> = sep" by (rule eq)
    finally have "take (length sep) ((x # a) @ butlast sep) = sep" .
    then have "prefix sep ((x # a) @ butlast sep)" by (metis take_is_prefix)
    then have "sublist sep ((x # a) @ butlast sep)" by (rule prefix_imp_sublist)
    then show False using Cons.prems(2) by simp
  qed
  moreover have "\<not> sublist sep (a @ butlast sep)"
    using Cons.prems(2) by (auto simp: sublist_Cons_right)
  ultimately show ?case using Cons.IH[of "acc @ [x]"] Cons.prems(1) by simp
qed

lemma parse_flattened:
  assumes lenv: "length vtext = length version"
      and marker: "\<not> sublist ''_sol_'' (js_join segs ''_'' @ ''_sol'')"
      and tail: "\<not> sublist ''_sol_'' (name @ ''.'' @ ext)"
      and name: "CHR ''.'' \<notin> set name" and ext: "CHR ''.'' \<notin> set ext"
  shows "parse_output fs cdir version (flattened_name vtext segs name ext)
         = (case recoverDirectories fs (cdir @ ''/'' @ version) (js_join segs ''_'') of
              Inl e \<Rightarrow> Inl e | Inr filePath \<Rightarrow> Inr (filePath, name, Some ext))"
proof -
  have d: "drop (length (''contracts_'' @ version @ ''_'')) (flattened_name vtext segs name ext)
           = js_join segs ''_'' @ ''_sol_'' @ name @ ''.'' @ ext"
    using lenv by (simp add: flattened_name_def)
  have s1: "js_split (js_join segs ''_'' @ ''_sol_'' @ name @ ''.'' @ ext) ''_sol_''
            = [js_join segs ''_'', name @ ''.'' @ ext]"
    unfolding js_split_def
    using js_split_from_first_occurrence[of "''_sol_''" "js_join segs ''_''" "[]" "name @ ''.'' @ ext"]
      js_split_from_no_occurrence[of "''_sol_''" "name @ ''.'' @ ext" "[]"] marker tail
    by simp
  have s2: "js_split (name @ ''.'' @ ext) ''.'' = [name, ext]"
    unfolding js_split_def
    using js_split_from_append[of "CHR ''.''" "[]" name ext] name ext
    by (simp add: js_split_from_no_sep)
  show ?thesis
    unfolding parse_output_def Let_def d s1 using s2
    by (cases "recoverDirectories fs (cdir @ ''/'' @ version) (js_join segs ''_'')") simp_all
qed

subsection \<open>What a returned path is made of\<close>

lemma recover_loop_result_strong:
  "recover_loop fs cwd (dir_text up) segments i = Inr r \<Longrightarrow>
   \<exists>ds tok. r = dir_text (up @ ds) @ tok
      \<and> js_join (ds @ [tok]) ''_'' = js_join segments ''_''
      \<and> (\<forall>k < length ds. node_at fs (resolve [cwd, dir_text (up @ take k ds), ds ! k]) = Some Dir)
      \<and> node_at fs (resolve [cwd, dir_text (up @ ds), tok]) \<noteq> Some Dir"
proof (induction segments arbitrary: up i rule: length_induct)
  case (1 segments)
  from "1.prems" obtain s rest where sg: "segments = s # rest" and lt: "i < 5"
    by (rule recover_loop_Inr_cases)
  show ?case
  proof (cases "node_at fs (resolve [cwd, dir_text up, s]) = Some Dir")
    case d: True
    have run: "recover_loop fs cwd (dir_text (up @ [s])) rest (Suc i) = Inr r"
      using "1.prems" sg lt d by (simp add: recover_loop_commit dir_text_snoc)
    then obtain s' rest' where rne: "rest = s' # rest'" by (rule recover_loop_Inr_cases)
    have len: "length rest < length segments" using sg by simp
    from "1.IH"[rule_format, OF len run] obtain ds tok where
      t: "r = dir_text ((up @ [s]) @ ds) @ tok"
         "js_join (ds @ [tok]) ''_'' = js_join rest ''_''"
         "\<forall>k < length ds. node_at fs (resolve [cwd, dir_text ((up @ [s]) @ take k ds), ds ! k]) = Some Dir"
         "node_at fs (resolve [cwd, dir_text ((up @ [s]) @ ds), tok]) \<noteq> Some Dir"
      by blast
    have j: "js_join ((s # ds) @ [tok]) ''_'' = js_join segments ''_''"
    proof -
      have "js_join ((s # ds) @ [tok]) ''_'' = s @ ''_'' @ js_join (ds @ [tok]) ''_''"
        using js_join_Cons[of "ds @ [tok]" s "''_''"] by simp
      also have "\<dots> = s @ ''_'' @ js_join rest ''_''" by (simp only: t(2))
      also have "\<dots> = js_join segments ''_''" using rne sg by simp
      finally show ?thesis .
    qed
    have p: "\<forall>k < length (s # ds). node_at fs (resolve [cwd, dir_text (up @ take k (s # ds)), (s # ds) ! k]) = Some Dir"
    proof (intro allI impI)
      fix k assume k: "k < length (s # ds)"
      show "node_at fs (resolve [cwd, dir_text (up @ take k (s # ds)), (s # ds) ! k]) = Some Dir"
      proof (cases k)
        case 0
        then show ?thesis using d by simp
      next
        case (Suc k')
        then have "k' < length ds" using k by simp
        then show ?thesis using t(3) Suc by simp
      qed
    qed
    have "r = dir_text (up @ s # ds) @ tok" using t(1) by simp
    moreover have "node_at fs (resolve [cwd, dir_text (up @ s # ds), tok]) \<noteq> Some Dir"
      using t(4) by simp
    ultimately show ?thesis using j p by blast
  next
    case nd: False
    show ?thesis
    proof (cases rest)
      case Nil
      then have "r = dir_text up @ s" using "1.prems" sg lt nd by (simp add: recover_loop_return)
      then have "r = dir_text (up @ []) @ s" by simp
      moreover have "js_join ([] @ [s]) ''_'' = js_join segments ''_''" using sg Nil by simp
      moreover have "\<forall>k < length ([]::string list). node_at fs (resolve [cwd, dir_text (up @ take k []), [] ! k]) = Some Dir"
        by simp
      moreover have "node_at fs (resolve [cwd, dir_text (up @ []), s]) \<noteq> Some Dir" using nd by simp
      ultimately show ?thesis by blast
    next
      case (Cons t ts)
      have run: "recover_loop fs cwd (dir_text up) ((s @ ''_'' @ t) # ts) (Suc i) = Inr r"
        using "1.prems" sg lt nd Cons by (simp add: recover_loop_merge)
      have len: "length ((s @ ''_'' @ t) # ts) < length segments" using sg Cons by simp
      from "1.IH"[rule_format, OF len run] obtain ds tok where
        t: "r = dir_text (up @ ds) @ tok"
           "js_join (ds @ [tok]) ''_'' = js_join ((s @ ''_'' @ t) # ts) ''_''"
           "\<forall>k < length ds. node_at fs (resolve [cwd, dir_text (up @ take k ds), ds ! k]) = Some Dir"
           "node_at fs (resolve [cwd, dir_text (up @ ds), tok]) \<noteq> Some Dir"
        by blast
      have "js_join ((s @ ''_'' @ t) # ts) ''_'' = js_join segments ''_''"
        unfolding sg Cons by (rule js_join_merge)
      with t(2) have "js_join (ds @ [tok]) ''_'' = js_join segments ''_''" by simp
      with t(1,3,4) show ?thesis by blast
    qed
  qed
qed

lemma dir_text_ends: "\<exists>a. dir_text ds = a @ ''/'' \<and> take 1 (a @ ''/'' @ tok) \<noteq> ''/''"
proof (cases ds rule: rev_cases)
  case Nil
  then show ?thesis by (intro exI[of _ "''.''"]) (simp add: dir_text_def)
next
  case (snoc ys y)
  then show ?thesis
    by (intro exI[of _ "''./'' @ concat (map (\<lambda>d. d @ ''/'') ys) @ y"]) (simp add: dir_text_def)
qed

lemma resolve_onto_joined:
  assumes "take 1 tok \<noteq> ''/''"
  shows "resolve_onto base (dir_text ds @ tok) = resolve_onto (resolve_onto base (dir_text ds)) tok"
proof -
  from dir_text_ends[of ds tok] obtain a where
    a: "dir_text ds = a @ ''/''" and h: "take 1 (a @ ''/'' @ tok) \<noteq> ''/''" by blast
  have h2: "take 1 (a @ ''/'') \<noteq> ''/''" using h by (cases a) auto
  have s1: "js_split (a @ CHR ''/'' # tok) ''/'' = js_split a ''/'' @ js_split tok ''/''"
    using js_split_from_append[of "CHR ''/''" "[]" a tok] by (simp add: js_split_def)
  have s2: "js_split (a @ [CHR ''/'']) ''/'' = js_split a ''/'' @ [[]]"
    using js_split_from_append[of "CHR ''/''" "[]" a "[]"] by (simp add: js_split_def)
  show ?thesis unfolding a
    using h h2 assms by (simp add: resolve_onto_def s1 s2 resolve_segment_def)
qed

lemma returned_location:
  assumes "take 1 tok \<noteq> ''/''"
  shows "node_at fs (resolve [cwd, dir_text ds @ tok]) = node_at fs (resolve [cwd, dir_text ds, tok])"
  using resolve_onto_joined[OF assms, of "resolve_path [cwd]" ds]
  by (simp add: node_at_resolve resolve_path_def)

lemma js_join_chars: "set tok \<subseteq> set (js_join (ds @ [tok]) sep)"
proof (induction ds)
  case Nil show ?case by simp
next
  case (Cons d ds)
  have "js_join ((d # ds) @ [tok]) sep = d @ sep @ js_join (ds @ [tok]) sep"
    using js_join_Cons[of "ds @ [tok]" d sep] by simp
  then show ?case using Cons by auto
qed

subsection \<open>The steps of the pipeline\<close>

lemma main_unfold:
  "findFiles E (disk w) = Inr F \<Longrightarrow>
   main E w = io_bind (removeOutDir E F) (\<lambda>u. pipeline E F) w"
  by (simp add: main_def io_bind_def read_fs_def)

lemma execSync_invocations:
  "invocations (snd (execSync E c d w)) = invocations w @ [c]"
  by (simp add: execSync_def Let_def split: prod.splits)

lemma execSync_result:
  "fst (execSync E c d w) = Inr () \<or>
   (\<exists>status. status \<noteq> 0 \<and> fst (execSync E c d w) = Inl (CommandFailed c status))"
  by (auto simp: execSync_def Let_def split: prod.splits)

lemma for_each_Cons:
  "io_for_each body (x # xs) w =
     (case body x w of (Inl e, w1) \<Rightarrow> (Inl e, w1) | (Inr u, w1) \<Rightarrow> io_for_each body xs w1)"
  by (simp add: io_bind_def)

declare io_for_each.simps(2) [simp del]

lemma for_each_trace_ok:
  assumes log: "\<And>x w. invocations (snd (body x w)) = invocations w @ [lbl x]"
  shows "fst (io_for_each body xs w) = Inr u \<Longrightarrow>
         invocations (snd (io_for_each body xs w)) = invocations w @ map lbl xs"
proof (induction xs arbitrary: w)
  case Nil
  show ?case by (simp add: io_return_def)
next
  case (Cons x xs)
  obtain r w1 where b: "body x w = (r, w1)" by (cases "body x w")
  have inv: "invocations w1 = invocations w @ [lbl x]" using log[of x w] b by simp
  show ?case
  proof (cases r)
    case (Inl e)
    then have "fst (io_for_each body (x # xs) w) = Inl e" by (simp add: for_each_Cons b)
    with Cons.prems show ?thesis by simp
  next
    case (Inr v)
    then have step: "io_for_each body (x # xs) w = io_for_each body xs w1"
      by (simp add: for_each_Cons b)
    then have "fst (io_for_each body xs w1) = Inr u" using Cons.prems by simp
    then have "invocations (snd (io_for_each body xs w1)) = invocations w1 @ map lbl xs"
      by (rule Cons.IH)
    then show ?thesis by (simp add: step inv)
  qed
qed

lemma for_each_trace_error:
  assumes log: "\<And>x w. invocations (snd (body x w)) = invocations w @ [lbl x]"
  shows "fst (io_for_each body xs w) = Inl e \<Longrightarrow>
         \<exists>k < length xs. invocations (snd (io_for_each body xs w)) = invocations w @ take (Suc k) (map lbl xs)
            \<and> (\<exists>w0. fst (body (xs ! k) w0) = Inl e)"
proof (induction xs arbitrary: w)
  case Nil
  then show ?case by (simp add: io_return_def)
next
  case (Cons x xs)
  obtain r w1 where b: "body x w = (r, w1)" by (cases "body x w")
  have inv: "invocations w1 = invocations w @ [lbl x]" using log[of x w] b by simp
  show ?case
  proof (cases r)
    case (Inl e')
    then have res: "io_for_each body (x # xs) w = (Inl e', w1)" by (simp add: for_each_Cons b)
    then have "e' = e" using Cons.prems by simp
    then have "fst (body ((x # xs) ! 0) w) = Inl e" using b Inl by simp
    moreover have "invocations (snd (io_for_each body (x # xs) w)) = invocations w @ take (Suc 0) (map lbl (x # xs))"
      using res inv by simp
    ultimately show ?thesis by (intro exI[of _ 0]) auto
  next
    case (Inr v)
    then have step: "io_for_each body (x # xs) w = io_for_each body xs w1"
      by (simp add: for_each_Cons b)
    then have "fst (io_for_each body xs w1) = Inl e" using Cons.prems by simp
    from Cons.IH[OF this] obtain k w0 where k: "k < length xs"
       "invocations (snd (io_for_each body xs w1)) = invocations w1 @ take (Suc k) (map lbl xs)"
       "fst (body (xs ! k) w0) = Inl e"
      by blast
    have "invocations (snd (io_for_each body (x # xs) w)) = invocations w @ take (Suc (Suc k)) (map lbl (x # xs))"
      using k(2) inv step by simp
    moreover have "fst (body ((x # xs) ! Suc k) w0) = Inl e" using k(3) by simp
    moreover have "Suc k < length (x # xs)" using k(1) by simp
    ultimately show ?thesis by blast
  qed
qed

lemma compile_body_log:
  "invocations (snd ((\<lambda>(dirName, filePaths). execSync E (compile_command dirName filePaths) d) x w))
     = invocations w @ [(\<lambda>(dirName, filePaths). compile_command dirName filePaths) x]"
  by (cases x) (simp add: execSync_invocations)

lemma compile_body_error:
  "fst ((\<lambda>(dirName, filePaths). execSync E (compile_command dirName filePaths) d) x w0) = Inl e \<Longrightarrow>
   \<exists>status. status \<noteq> 0 \<and> e = CommandFailed ((\<lambda>(dirName, filePaths). compile_command dirName filePaths) x) status"
  using execSync_result[of E "compile_command (fst x) (snd x)" d w0] by (cases x) auto

subsection \<open>Discovery\<close>

lemma contracts_dir_location:
  "resolve_path [resolve [resolve [dirname E, ''..''], ''contracts'']] = contracts_root E"
proof -
  have "resolve_path [resolve [resolve [dirname E, ''..''], ''contracts'']]
        = resolve_path [resolve [dirname E, ''..''], ''contracts'']"
    by (rule resolve_path_resolve)
  also have "\<dots> = foldl resolve_onto (resolve_path [dirname E, ''..'']) [''contracts'']"
    by (rule resolve_path_resolve_Cons)
  also have "\<dots> = resolve_path ([dirname E, ''..''] @ [''contracts''])"
    by (simp only: resolve_path_snoc foldl.simps)
  finally show ?thesis by (simp add: contracts_root_def)
qed

lemma out_dir_location:
  "resolve_path [resolve [resolve [resolve [dirname E, ''..''], ''contracts''], ''compiled'']]
     = contracts_root E @ [''compiled'']"
proof -
  have pl: "plain_name ''compiled''" by (simp add: plain_name_def)
  have "resolve_path [resolve [resolve [resolve [dirname E, ''..''], ''contracts''], ''compiled'']]
        = resolve_path [resolve [resolve [dirname E, ''..''], ''contracts''], ''compiled'']"
    by (rule resolve_path_resolve)
  also have "\<dots> = foldl resolve_onto (resolve_path [resolve [dirname E, ''..''], ''contracts'']) [''compiled'']"
    by (rule resolve_path_resolve_Cons)
  also have "resolve_path [resolve [dirname E, ''..''], ''contracts''] = contracts_root E"
    using contracts_dir_location[of E] by (simp only: resolve_path_resolve)
  finally show ?thesis using pl by (simp add: resolve_onto_plain)
qed

lemma findFiles_fields:
  assumes "findFiles E fs = Inr F"
  shows "rootDir F = resolve [dirname E, ''..'']"
    and "contractsDir F = resolve [resolve [dirname E, ''..''], ''contracts'']"
    and "outDir F = resolve [resolve [resolve [dirname E, ''..''], ''contracts''], ''compiled'']"
    and "prebuiltAbis F = globSync fs ''**/*.json'' (contractsDir F)"
    and "contracts F = js_Map (map (\<lambda>version.
            (version, globSync fs ''./**/*.sol'' (resolve [contractsDir F, version])))
            (filter (\<lambda>d. dirent_isDirectory fs (contractsDir F) d \<and> take 1 d = ''v'')
               (child_names fs (resolve_path [contractsDir F]))))"
    and "node_at fs (contractsDir F) = Some Dir"
proof -
  let ?cdir = "resolve [resolve [dirname E, ''..''], ''contracts'']"
  from assms obtain names where r: "readdirSync fs ?cdir = Inr names"
    by (cases "readdirSync fs ?cdir") (simp_all add: findFiles_def Let_def)
  then have n: "node_at fs ?cdir = Some Dir" and names: "names = child_names fs (resolve_path [?cdir])"
    by (auto simp: readdirSync_def split: option.splits node.splits)
  have F: "F = \<lparr> rootDir = resolve [dirname E, ''..''], contractsDir = ?cdir,
                 outDir = resolve [?cdir, ''compiled''],
                 contracts = js_Map (map (\<lambda>version.
                    (version, globSync fs ''./**/*.sol'' (resolve [?cdir, version])))
                    (filter (\<lambda>d. dirent_isDirectory fs ?cdir d \<and> take 1 d = ''v'') names)),
                 prebuiltAbis = globSync fs ''**/*.json'' ?cdir \<rparr>"
    using assms r by (simp add: findFiles_def Let_def)
  show "rootDir F = resolve [dirname E, ''..'']" by (simp add: F)
  show "contractsDir F = ?cdir" by (simp add: F)
  show "outDir F = resolve [?cdir, ''compiled'']" by (simp add: F)
  show "prebuiltAbis F = globSync fs ''**/*.json'' (contractsDir F)" by (simp add: F)
  show "contracts F = js_Map (map (\<lambda>version.
            (version, globSync fs ''./**/*.sol'' (resolve [contractsDir F, version])))
            (filter (\<lambda>d. dirent_isDirectory fs (contractsDir F) d \<and> take 1 d = ''v'')
               (child_names fs (resolve_path [contractsDir F]))))"
    by (simp add: F names)
  show "node_at fs (contractsDir F) = Some Dir" using n by (simp add: F)
qed

lemma findFiles_locations:
  assumes "findFiles E fs = Inr F"
  shows "resolve_path [contractsDir F] = contracts_root E"
    and "resolve_path [outDir F] = contracts_root E @ [''compiled'']"
  using findFiles_fields(2,3)[OF assms] contracts_dir_location[of E] out_dir_location[of E]
  by simp_all

lemma snoc_shape: "(p \<noteq> [] \<and> butlast p = d) = (p = d @ [last p] \<and> p \<noteq> [])"
  by (metis append_butlast_last_id butlast_snoc)

lemma set_child_names:
  "set (child_names fs d) = {name. d @ [name] \<in> fst ` set fs}"
proof (intro set_eqI iffI)
  fix name assume "name \<in> set (child_names fs d)"
  then obtain p where p: "p \<in> fst ` set fs" "p \<noteq> []" "butlast p = d" "name = last p"
    by (auto simp: child_names_def)
  then have "p = d @ [name]" using snoc_shape[of p d] by simp
  with p(1) show "name \<in> {name. d @ [name] \<in> fst ` set fs}" by simp
next
  fix name assume "name \<in> {name. d @ [name] \<in> fst ` set fs}"
  then have "d @ [name] \<in> fst ` set fs" by simp
  moreover have "last (d @ [name]) = name" "butlast (d @ [name]) = d" "d @ [name] \<noteq> []" by simp_all
  ultimately show "name \<in> set (child_names fs d)"
    unfolding child_names_def set_sort set_remdups set_map set_filter
    by (metis (mono_tags, lifting) image_eqI mem_Collect_eq)
qed

lemma distinct_child_names: "distinct (child_names fs d)"
  by (simp add: child_names_def)

lemma js_Map_set_fresh: "k \<notin> fst ` set m \<Longrightarrow> js_Map_set m k v = m @ [(k, v)]"
  by (induction m) auto

lemma js_Map_foldl_distinct:
  "distinct (map fst m @ map fst pairs) \<Longrightarrow>
   foldl (\<lambda>m (k, v). js_Map_set m k v) m pairs = m @ pairs"
proof (induction pairs arbitrary: m)
  case Nil show ?case by simp
next
  case (Cons x xs)
  obtain k v where x: "x = (k, v)" by (cases x)
  have "k \<notin> fst ` set m" using Cons.prems x by auto
  then have s: "js_Map_set m k v = m @ [(k, v)]" by (rule js_Map_set_fresh)
  have "distinct (map fst (m @ [(k, v)]) @ map fst xs)" using Cons.prems x by auto
  from Cons.IH[OF this] show ?case using s x by simp
qed

lemma js_Map_distinct: "distinct (map fst pairs) \<Longrightarrow> js_Map pairs = pairs"
  using js_Map_foldl_distinct[of "[]" pairs] by (simp add: js_Map_def)

lemma sorted_globSync: "sorted (globSync fs pattern cwd)"
  by (simp add: globSync_def glob_files_def Let_def)

lemma findFiles_succeeds:
  assumes "node_of fs (contracts_root E) = Some Dir"
  shows "\<exists>F. findFiles E fs = Inr F"
proof -
  let ?cdir = "resolve [resolve [dirname E, ''..''], ''contracts'']"
  have "node_at fs ?cdir = Some Dir"
    using assms contracts_dir_location[of E] by (simp add: node_at_def)
  then show ?thesis by (simp add: findFiles_def Let_def readdirSync_def)
qed

lemma version_names:
  assumes f: "findFiles E fs = Inr F"
  shows "map fst (contracts F)
         = filter (\<lambda>d. node_of fs (contracts_root E @ [d]) = Some Dir \<and> take 1 d = ''v'')
             (child_names fs (contracts_root E))"
    and "contracts F = map (\<lambda>version.
            (version, globSync fs ''./**/*.sol'' (resolve [contractsDir F, version])))
            (filter (\<lambda>d. node_of fs (contracts_root E @ [d]) = Some Dir \<and> take 1 d = ''v'')
               (child_names fs (contracts_root E)))"
proof -
  let ?names = "filter (\<lambda>d. node_of fs (contracts_root E @ [d]) = Some Dir \<and> take 1 d = ''v'')
             (child_names fs (contracts_root E))"
  let ?pairs = "map (\<lambda>version.
            (version, globSync fs ''./**/*.sol'' (resolve [contractsDir F, version]))) ?names"
  have loc: "resolve_path [contractsDir F] = contracts_root E" by (rule findFiles_locations(1)[OF f])
  have "map fst ?pairs = ?names" by (simp add: comp_def)
  then have d: "distinct (map fst ?pairs)" using distinct_child_names[of fs "contracts_root E"]
    by (simp add: distinct_map_filter comp_def)
  have "contracts F = js_Map ?pairs"
    using findFiles_fields(5)[OF f] by (simp add: dirent_isDirectory_def loc)
  then show c: "contracts F = ?pairs" using js_Map_distinct[OF d] by simp
  show "map fst (contracts F) = ?names" unfolding c by (simp add: comp_def)
qed

lemma map_of_filter_fst:
  "map_of (filter (\<lambda>(p, n). Q p) fs) p = (if Q p then map_of fs p else None)"
  by (induction fs) auto

lemma glob_files_member:
  assumes isfile: "map_of fs (resolve_path [cwd] @ rel) = Some (File b)"
      and rel: "rel \<noteq> []" and ext: "suffix ext (last rel)"
      and nodot: "\<forall>s \<in> set rel. take 1 s \<noteq> ''.''"
  shows "pre @ js_join rel ''/'' \<in> set (glob_files fs cwd pre ext)"
proof -
  let ?d = "resolve_path [cwd]" and ?p = "resolve_path [cwd] @ rel"
  have "?p \<in> fst ` set fs" using isfile by (metis map_of_eq_None_iff option.distinct(1))
  then have "?p \<in> set (remdups (map fst fs))" by simp
  moreover have "strict_prefix ?d ?p" using rel by (simp add: strict_prefix_def)
  moreover have "is_file (map_of fs ?p)" using isfile by simp
  moreover have "suffix ext (last ?p)" using ext rel by simp
  moreover have "\<forall>s \<in> set (drop (length ?d) ?p). take 1 s \<noteq> ''.''" using nodot by simp
  ultimately have "?p \<in> set (filter (\<lambda>p. strict_prefix ?d p \<and> is_file (map_of fs p)
                       \<and> suffix ext (last p)
                       \<and> (\<forall>s \<in> set (drop (length ?d) p). take 1 s \<noteq> ''.''))
              (remdups (map fst fs)))" by simp
  then have "pre @ js_join (drop (length ?d) ?p) ''/'' \<in> set (glob_files fs cwd pre ext)"
    unfolding glob_files_def Let_def set_sort set_map by (rule imageI)
  then show ?thesis by simp
qed

lemma resolve_onto_relative:
  assumes "clean_path rel" "rel \<noteq> []"
  shows "resolve_onto p (js_join rel ''/'') = p @ rel"
proof -
  have nosl: "\<forall>x \<in> set rel. CHR ''/'' \<notin> set x" using assms(1) by (auto simp: clean_path_def plain_name_def)
  have sp: "js_split (js_join rel ''/'') ''/'' = rel"
    using js_split_join_plain[of rel "CHR ''/''"] nosl assms(2) by simp
  obtain a as where r: "rel = a # as" using assms(2) by (cases rel) auto
  then have "plain_name a" using assms(1) by (simp add: clean_path_def)
  then have "take 1 a \<noteq> ''/''" by (cases a) (auto simp: plain_name_def)
  then have "take 1 (js_join rel ''/'') \<noteq> ''/''" unfolding r
    using \<open>plain_name a\<close> by (cases a; cases as) (auto simp: plain_name_def)
  then show ?thesis using sp assms(1) by (simp add: resolve_onto_def foldl_resolve_segment_plain)
qed

subsection \<open>Copying a prebuilt file\<close>

lemma js_replace_first:
  "pat \<noteq> [] \<Longrightarrow> \<not> sublist pat (a @ butlast pat) \<Longrightarrow>
   js_replace (a @ pat @ b) pat rep = a @ rep @ b"
proof (induction a)
  case Nil
  then obtain c cs where p: "pat = c # cs" by (cases pat) auto
  show ?case unfolding p by simp
next
  case (Cons x a)
  have "take (length pat) ((x # a) @ pat @ b) \<noteq> pat"
  proof
    assume eq: "take (length pat) ((x # a) @ pat @ b) = pat"
    have "pat = butlast pat @ [last pat]" using Cons.prems(1) by simp
    then have A: "(x # a) @ pat @ b = ((x # a) @ butlast pat) @ last pat # b"
      by (metis append.assoc append_Cons append_Nil)
    have le: "length pat \<le> length ((x # a) @ butlast pat)" by simp
    have "take (length pat) ((x # a) @ butlast pat)
          = take (length pat) (((x # a) @ butlast pat) @ last pat # b)"
      using le by (rule take_le_append[symmetric])
    also have "\<dots> = take (length pat) ((x # a) @ pat @ b)" by (simp only: A)
    also have "\<dots> = pat" by (rule eq)
    finally have "take (length pat) ((x # a) @ butlast pat) = pat" .
    then have "prefix pat ((x # a) @ butlast pat)" by (metis take_is_prefix)
    then have "sublist pat ((x # a) @ butlast pat)" by (rule prefix_imp_sublist)
    then show False using Cons.prems(2) by simp
  qed
  moreover have "\<not> sublist pat (a @ butlast pat)"
    using Cons.prems(2) by (auto simp: sublist_Cons_right)
  ultimately show ?case using Cons.IH Cons.prems(1) by simp
qed

lemma js_replace_extension:
  "\<not> sublist ''.json'' (base @ ''.jso'') \<Longrightarrow>
   js_replace (base @ ''.json'') ''.json'' ''.abi'' = base @ ''.abi''"
  using js_replace_first[of "''.json''" base "[]" "''.abi''"] by simp

lemma map_of_store:
  "map_of (store fs (p, n)) q = (if q = p then Some n else map_of fs q)"
  by (induction fs) auto

lemma map_of_foldl_store_same:
  "items \<noteq> [] \<Longrightarrow> \<forall>x \<in> set items. x = (p, n) \<Longrightarrow> map_of (foldl store fs items) p = Some n"
proof (induction items arbitrary: fs)
  case Nil then show ?case by simp
next
  case (Cons x xs)
  have x: "x = (p, n)" using Cons.prems(2) by simp
  show ?case
  proof (cases xs)
    case Nil
    then show ?thesis using x by (simp add: map_of_store)
  next
    case (Cons y ys)
    then have "map_of (foldl store (store fs x) xs) p = Some n"
      using Cons.prems(2) by (intro Cons.IH) auto
    then show ?thesis by simp
  qed
qed

lemma copySync_file_bytes:
  assumes src: "node_at fs src = Some (File b)"
      and ok: "copySync fs src dest = Inr fs'"
  shows "node_at fs' dest = Some (File b)"
proof -
  let ?ps = "resolve_path [src]" and ?pd = "resolve_path [dest]"
  have psne: "?ps \<noteq> []" using src by (auto simp: node_at_def node_of_def split: if_splits)
  then have m: "map_of fs ?ps = Some (File b)" using src by (simp add: node_at_def node_of_def)
  let ?items = "map (\<lambda>(p, m). (?pd @ drop (length ?ps) p, m))
                  (filter (\<lambda>(p, m). p = ?ps \<and> map_of fs p = Some m) fs)"
  from ok src obtain fs1 where
      mk: "mkdirSync fs (render_path (butlast ?pd)) = Inr fs1"
      and nc: "\<not> (\<exists>(q, m) \<in> set ?items. clash m (node_of fs1 q))"
      and res: "fs' = foldl store fs1 ?items"
    by (auto simp: copySync_def Let_def split: if_splits sum.splits)
  have mem: "(?ps, File b) \<in> set fs" using m by (rule map_of_SomeD)
  then have "(?ps, File b) \<in> set (filter (\<lambda>(p, m). p = ?ps \<and> map_of fs p = Some m) fs)"
    using m by simp
  then have "(\<lambda>(p, m). (?pd @ drop (length ?ps) p, m)) (?ps, File b) \<in> set ?items"
    unfolding set_map by (rule imageI)
  then have inn: "(?pd, File b) \<in> set ?items" by simp
  then have ne: "?items \<noteq> []" by (metis empty_iff empty_set)
  have all: "\<forall>x \<in> set ?items. x = (?pd, File b)" using m by auto
  have "\<not> clash (File b) (node_of fs1 ?pd)" using nc inn by blast
  then have pdne: "?pd \<noteq> []" by (auto simp: node_of_def)
  have "map_of fs' ?pd = Some (File b)" unfolding res using ne all by (rule map_of_foldl_store_same)
  then show ?thesis using pdne by (simp add: node_at_def node_of_def)
qed

lemma copyPrebuiltABIs_scenario:
  "copyPrebuiltABIs
     \<lparr> rootDir = ''/r'', contractsDir = ''/r/contracts'', outDir = ''/r/contracts/compiled'',
        contracts = [], prebuiltAbis = [''legacy/Old.json''] \<rparr>
     \<lparr> disk = [([''r''], Dir), ([''r'', ''contracts''], Dir), ([''r'', ''contracts'', ''legacy''], Dir),
               ([''r'', ''contracts'', ''legacy'', ''Old.json''], File ''[{}]'')],
        invocations = [] \<rparr>
   = (Inr (),
      \<lparr> disk = [([''r''], Dir), ([''r'', ''contracts''], Dir), ([''r'', ''contracts'', ''legacy''], Dir),
               ([''r'', ''contracts'', ''legacy'', ''Old.json''], File ''[{}]''),
               ([''r'', ''contracts'', ''compiled''], Dir),
               ([''r'', ''contracts'', ''compiled'', ''legacy''], Dir),
               ([''r'', ''contracts'', ''compiled'', ''legacy'', ''Old.abi''], File ''[{}]'')],
        invocations = [] \<rparr>)"
  by code_simp

subsection \<open>Files left in the output directory\<close>

text \<open>
  A regular \<open>.json\<close> file below the output directory at discovery, no segment of its
  path starting with a dot, is in the prebuilt set under its path from the contracts
  root; that path resolves to the file's own location; and a successful reset removes it.
\<close>

lemma stale_json_discovered_then_removed:
  assumes f: "findFiles E (disk w) = Inr F"
      and isfile: "map_of (disk w) (contracts_root E @ ''compiled'' # rel) = Some (File b)"
      and rel: "clean_path rel" "rel \<noteq> []"
      and json: "suffix ''.json'' (last rel)"
      and nodot: "\<forall>s \<in> set rel. take 1 s \<noteq> ''.''"
      and out: "node_of (disk w) (contracts_root E @ [''compiled'']) = Some Dir"
      and nofault: "removal_fault E (outDir F) = None"
  shows "js_join (''compiled'' # rel) ''/'' \<in> set (prebuiltAbis F)
     \<and> resolve_path [resolve [contractsDir F, js_join (''compiled'' # rel) ''/'']]
          = contracts_root E @ ''compiled'' # rel
     \<and> (\<exists>w'. removeOutDir E F w = (Inr (), w')
           \<and> node_of (disk w') (contracts_root E @ ''compiled'' # rel) = None)"
proof (intro conjI)
  note loc = findFiles_locations[OF f]
  have "[] @ js_join (''compiled'' # rel) ''/'' \<in> set (glob_files (disk w) (contractsDir F) [] ''.json'')"
  proof (rule glob_files_member)
    show "map_of (disk w) (resolve_path [contractsDir F] @ ''compiled'' # rel) = Some (File b)"
      using isfile loc(1) by simp
    show "''compiled'' # rel \<noteq> []" by simp
    show "suffix ''.json'' (last (''compiled'' # rel))" using json rel(2) by simp
    show "\<forall>s \<in> set (''compiled'' # rel). take 1 s \<noteq> ''.''" using nodot by simp
  qed
  then show "js_join (''compiled'' # rel) ''/'' \<in> set (prebuiltAbis F)"
    using findFiles_fields(4)[OF f] by (simp add: globSync_def)
  have cl: "clean_path (''compiled'' # rel)" using rel(1) by (simp add: clean_path_def plain_name_def)
  have "resolve_path [resolve [contractsDir F, js_join (''compiled'' # rel) ''/'']]
        = resolve_path [contractsDir F, js_join (''compiled'' # rel) ''/'']"
    by (rule resolve_path_resolve)
  also have "\<dots> = resolve_onto (resolve_path [contractsDir F]) (js_join (''compiled'' # rel) ''/'')"
    using resolve_path_snoc[of "[contractsDir F]"] by simp
  also have "\<dots> = contracts_root E @ ''compiled'' # rel"
    using resolve_onto_relative[OF cl] loc(1) by simp
  finally show "resolve_path [resolve [contractsDir F, js_join (''compiled'' # rel) ''/'']]
          = contracts_root E @ ''compiled'' # rel" .
  let ?w' = "w\<lparr>disk := filter (\<lambda>(p, n). \<not> prefix (resolve_path [outDir F]) p) (disk w)\<rparr>"
  have "node_at (disk w) (outDir F) = Some Dir" using out loc(2) by (simp add: node_at_def)
  then have r: "removeOutDir E F w = (Inr (), ?w')"
    using nofault by (simp add: removeOutDir_def rmdirSync_def)
  have "node_of (disk ?w') (contracts_root E @ ''compiled'' # rel) = None"
    using loc(2) by (simp add: node_of_def map_of_filter_fst)
  with r show "\<exists>w'. removeOutDir E F w = (Inr (), w')
           \<and> node_of (disk w') (contracts_root E @ ''compiled'' # rel) = None" by blast
qed

section \<open>The claims about recoverDirectories\<close>

text \<open>
  C2.  \<open>recoverDirectories\<close> starts from \<open>./\<close> with the underscore-delimited tokens
  of the fragment, which joined by underscores are the fragment again.  While budget
  remains, one step takes the next token: a token naming an existing directory below
  the accumulated directory is committed and probing continues; a token that does not,
  with tokens remaining, is put back in front of the remaining text with its underscore
  (the text to parse is unchanged) and probing continues with one unit of budget less;
  a token that does not, with no token remaining, is returned behind the accumulated
  directory as the final filename segment.
\<close>
theorem recoverDirectories_probing_steps:
  "recoverDirectories fs cwd path = recover_loop fs cwd ''./'' (js_split path ''_'') 0
   \<and> js_join (js_split path ''_'') ''_'' = path
   \<and> (i < 5 \<longrightarrow>
        (node_at fs (resolve [cwd, res, tok]) = Some Dir \<longrightarrow>
           recover_loop fs cwd res (tok # rest) i
             = recover_loop fs cwd (res @ tok @ ''/'') rest (Suc i))
      \<and> (node_at fs (resolve [cwd, res, tok]) \<noteq> Some Dir \<and> rest \<noteq> [] \<longrightarrow>
           recover_loop fs cwd res (tok # rest) i
             = recover_loop fs cwd res ((tok @ ''_'' @ hd rest) # tl rest) (Suc i)
           \<and> js_join ((tok @ ''_'' @ hd rest) # tl rest) ''_'' = js_join (tok # rest) ''_'')
      \<and> (node_at fs (resolve [cwd, res, tok]) \<noteq> Some Dir \<and> rest = [] \<longrightarrow>
           recover_loop fs cwd res (tok # rest) i = Inr (res @ tok)))"
proof (intro conjI impI)
  show "recoverDirectories fs cwd path = recover_loop fs cwd ''./'' (js_split path ''_'') 0"
    by (simp add: recoverDirectories_def)
  show "js_join (js_split path ''_'') ''_'' = path" by (rule js_join_split)
next
  assume "i < 5" "node_at fs (resolve [cwd, res, tok]) = Some Dir"
  then show "recover_loop fs cwd res (tok # rest) i = recover_loop fs cwd (res @ tok @ ''/'') rest (Suc i)"
    by (rule recover_loop_commit)
next
  assume lt: "i < 5" and nd: "node_at fs (resolve [cwd, res, tok]) \<noteq> Some Dir \<and> rest \<noteq> []"
  then obtain t ts where r: "rest = t # ts" by (cases rest) auto
  show "recover_loop fs cwd res (tok # rest) i
          = recover_loop fs cwd res ((tok @ ''_'' @ hd rest) # tl rest) (Suc i)"
    using lt nd r by (simp add: recover_loop_merge)
  show "js_join ((tok @ ''_'' @ hd rest) # tl rest) ''_'' = js_join (tok # rest) ''_''"
    unfolding r list.sel by (rule js_join_merge)
next
  assume "i < 5" "node_at fs (resolve [cwd, res, tok]) \<noteq> Some Dir \<and> rest = []"
  then show "recover_loop fs cwd res (tok # rest) i = Inr (res @ tok)"
    by (simp add: recover_loop_return)
qed

theorem recoverDirectories_probing_steps_witness:
  "(0::nat) < 5
   \<and> node_at [([''r'', ''a''], Dir)] (resolve [''/r'', ''./'', ''a'']) = Some Dir
   \<and> recover_loop [([''r'', ''a''], Dir)] ''/r'' ''./'' [''a'', ''b''] 0
       = recover_loop [([''r'', ''a''], Dir)] ''/r'' ''./a/'' [''b''] (Suc 0)
   \<and> node_at [([''r'', ''a''], Dir)] (resolve [''/r'', ''./'', ''x'']) \<noteq> Some Dir
   \<and> recover_loop [([''r'', ''a''], Dir)] ''/r'' ''./'' [''x'', ''y''] 0
       = recover_loop [([''r'', ''a''], Dir)] ''/r'' ''./'' [''x_y''] (Suc 0)
   \<and> recover_loop [([''r'', ''a''], Dir)] ''/r'' ''./'' [''x''] 0 = Inr ''./x''"
proof -
  have d: "node_at [([''r'', ''a''], Dir)] (resolve [''/r'', ''./'', ''a'']) = Some Dir"
    by code_simp
  have n: "node_at [([''r'', ''a''], Dir)] (resolve [''/r'', ''./'', ''x'']) \<noteq> Some Dir"
    by code_simp
  show ?thesis
    using d n
      recoverDirectories_probing_steps [of "[([''r'', ''a''], Dir)]" "''/r''" "''a_b''" 0 "''./''" "''a''" "[''b'']"]
      recoverDirectories_probing_steps [of "[([''r'', ''a''], Dir)]" "''/r''" "''x_y''" 0 "''./''" "''x''" "[''y'']"]
      recoverDirectories_probing_steps [of "[([''r'', ''a''], Dir)]" "''/r''" "''x''" 0 "''./''" "''x''" "[]"]
    by simp
qed

text \<open>
  C3.  A fragment flattened from six directory segments and a filename makes
  \<open>recoverDirectories\<close> throw, whatever the file system holds; no truncated path is
  returned.
\<close>
theorem recoverDirectories_depth_six_fails:
  "length ds = 6 \<Longrightarrow>
   recoverDirectories fs cwd (js_join (ds @ [f]) ''_'') = Inl (JsError ''unexpected exit'')"
proof -
  assume l: "length ds = 6"
  have "length (ds @ [f]) - 1 \<le> length (filter (\<lambda>x. x = CHR ''_'') (js_join (ds @ [f]) ''_''))"
    by (rule count_js_join)
  then have "5 < length (js_split (js_join (ds @ [f]) ''_'') ''_'') + 0"
    using l by (simp add: js_split_def length_js_split_from)
  then show ?thesis unfolding recoverDirectories_def by (rule recover_loop_budget)
qed

theorem recoverDirectories_depth_six_fails_witness:
  "length [''a'', ''b'', ''c'', ''d'', ''e'', ''g''] = 6
   \<and> recoverDirectories
        [([''r'', ''a''], Dir), ([''r'', ''a'', ''b''], Dir), ([''r'', ''a'', ''b'', ''c''], Dir),
         ([''r'', ''a'', ''b'', ''c'', ''d''], Dir), ([''r'', ''a'', ''b'', ''c'', ''d'', ''e''], Dir),
         ([''r'', ''a'', ''b'', ''c'', ''d'', ''e'', ''g''], Dir)]
        ''/r'' ''a_b_c_d_e_g_Token'' = Inl (JsError ''unexpected exit'')"
proof -
  have h: "length [''a'', ''b'', ''c'', ''d'', ''e'', ''g''] = 6" by simp
  show ?thesis
    using h recoverDirectories_depth_six_fails [OF h, of _ "''/r''" "''Token''"] by simp
qed

text \<open>
  C9.  A path returned by \<open>recoverDirectories\<close> is \<open>./\<close>, the committed tokens each
  followed by a slash, and a last token: the committed tokens and the last one joined by
  underscores are the fragment; each committed token was probed below the ones before it
  and is a directory there; the last token was probed below all of them and is not.  So
  for a fragment without a slash the returned path is itself not a directory.  When the
  last token is committed as a directory the loop throws, and \<open>recoverDirectories\<close>
  throws when every token of the fragment, the last included, names an existing
  directory below the ones before it.
\<close>

theorem recoverDirectories_never_directory_only:
  "(recoverDirectories fs cwd path = Inr r \<longrightarrow>
      (\<exists>ds tok. r = dir_text ds @ tok \<and> js_join (ds @ [tok]) ''_'' = path
          \<and> (\<forall>k < length ds.
                node_at fs (resolve [cwd, dir_text (take k ds), ds ! k]) = Some Dir)
          \<and> node_at fs (resolve [cwd, dir_text ds, tok]) \<noteq> Some Dir))
   \<and> (recoverDirectories fs cwd path = Inr r \<and> CHR ''/'' \<notin> set path \<longrightarrow>
        node_at fs (resolve [cwd, r]) \<noteq> Some Dir)
   \<and> (node_at fs (resolve [cwd, res0, tok0]) = Some Dir \<longrightarrow>
        recover_loop fs cwd res0 [tok0] i = Inl (JsError ''unexpected exit''))
   \<and> ((\<forall>k < length (js_split path ''_'').
          node_at fs (resolve [cwd, dir_text (take k (js_split path ''_'')), js_split path ''_'' ! k])
            = Some Dir) \<longrightarrow>
        recoverDirectories fs cwd path = Inl (JsError ''unexpected exit''))"
proof -
  have strong: "\<exists>ds tok. r = dir_text ds @ tok \<and> js_join (ds @ [tok]) ''_'' = path
          \<and> (\<forall>k < length ds.
                node_at fs (resolve [cwd, dir_text (take k ds), ds ! k]) = Some Dir)
          \<and> node_at fs (resolve [cwd, dir_text ds, tok]) \<noteq> Some Dir"
    if ret: "recoverDirectories fs cwd path = Inr r"
  proof -
    have "recover_loop fs cwd (dir_text []) (js_split path ''_'') 0 = Inr r"
      using ret by (simp add: recoverDirectories_def dir_text_def)
    from recover_loop_result_strong[OF this] show ?thesis by (simp add: js_join_split)
  qed
  have c2: "node_at fs (resolve [cwd, r]) \<noteq> Some Dir"
    if ret: "recoverDirectories fs cwd path = Inr r" and nosl: "CHR ''/'' \<notin> set path"
  proof -
    from strong[OF ret] obtain ds tok where
      t: "r = dir_text ds @ tok" "js_join (ds @ [tok]) ''_'' = path"
         "node_at fs (resolve [cwd, dir_text ds, tok]) \<noteq> Some Dir" by blast
    have "set tok \<subseteq> set path" using js_join_chars[of tok ds "''_''"] t(2) by simp
    then have "CHR ''/'' \<notin> set tok" using nosl by auto
    then have "take 1 tok \<noteq> ''/''" by (cases tok) auto
    from returned_location[OF this] show ?thesis using t(1,3) by simp
  qed
  have c3: "recover_loop fs cwd res0 [tok0] i = Inl (JsError ''unexpected exit'')"
    if d: "node_at fs (resolve [cwd, res0, tok0]) = Some Dir"
  proof (cases "i < 5")
    case True
    then show ?thesis using d by (simp add: recover_loop_commit recover_loop_stop)
  next
    case False
    then show ?thesis by (simp add: recover_loop_stop)
  qed
  have c4: "recoverDirectories fs cwd path = Inl (JsError ''unexpected exit'')"
    if "\<forall>k < length (js_split path ''_'').
          node_at fs (resolve [cwd, dir_text (take k (js_split path ''_'')), js_split path ''_'' ! k])
            = Some Dir"
    using that unfolding recoverDirectories_def dir_text_def by (rule recover_loop_all_committed)
  show ?thesis using strong c2 c3 c4 by blast
qed

theorem recoverDirectories_never_directory_only_witness:
  "recoverDirectories [([''r'', ''a''], Dir)] ''/r'' ''a_b'' = Inr ''./a/b''
   \<and> (\<exists>ds tok. ''./a/b'' = dir_text ds @ tok \<and> js_join (ds @ [tok]) ''_'' = ''a_b''
          \<and> (\<forall>k < length ds.
                node_at [([''r'', ''a''], Dir)] (resolve [''/r'', dir_text (take k ds), ds ! k]) = Some Dir)
          \<and> node_at [([''r'', ''a''], Dir)] (resolve [''/r'', dir_text ds, tok]) \<noteq> Some Dir)
   \<and> CHR ''/'' \<notin> set ''a_b''
   \<and> node_at [([''r'', ''a''], Dir)] (resolve [''/r'', ''./a/b'']) \<noteq> Some Dir
   \<and> node_at [([''r'', ''a''], Dir)] (resolve [''/r'', ''./'', ''a'']) = Some Dir
   \<and> recover_loop [([''r'', ''a''], Dir)] ''/r'' ''./'' [''a''] 0 = Inl (JsError ''unexpected exit'')
   \<and> js_split ''a'' ''_'' = [''a'']
   \<and> recoverDirectories [([''r'', ''a''], Dir)] ''/r'' ''a'' = Inl (JsError ''unexpected exit'')"
proof -
  have r: "recoverDirectories [([''r'', ''a''], Dir)] ''/r'' ''a_b'' = Inr ''./a/b''"
    by code_simp
  have n: "CHR ''/'' \<notin> set ''a_b''" by simp
  have d: "node_at [([''r'', ''a''], Dir)] (resolve [''/r'', ''./'', ''a'']) = Some Dir"
    by code_simp
  have s: "js_split ''a'' ''_'' = [''a'']" by code_simp
  have a: "\<forall>k < length (js_split ''a'' ''_'').
          node_at [([''r'', ''a''], Dir)]
            (resolve [''/r'', dir_text (take k (js_split ''a'' ''_'')), js_split ''a'' ''_'' ! k]) = Some Dir"
    using d by (simp add: s dir_text_def)
  note t1 = recoverDirectories_never_directory_only
        [of "[([''r'', ''a''], Dir)]" "''/r''" "''a_b''" "''./a/b''" "''./''" "''a''" 0]
  note t2 = recoverDirectories_never_directory_only
        [of "[([''r'', ''a''], Dir)]" "''/r''" "''a''" "''./a/b''" "''./''" "''a''" 0]
  have c1: "\<exists>ds tok. ''./a/b'' = dir_text ds @ tok \<and> js_join (ds @ [tok]) ''_'' = ''a_b''
          \<and> (\<forall>k < length ds.
                node_at [([''r'', ''a''], Dir)] (resolve [''/r'', dir_text (take k ds), ds ! k]) = Some Dir)
          \<and> node_at [([''r'', ''a''], Dir)] (resolve [''/r'', dir_text ds, tok]) \<noteq> Some Dir"
    using t1 r by blast
  have c2: "node_at [([''r'', ''a''], Dir)] (resolve [''/r'', ''./a/b'']) \<noteq> Some Dir"
    using t1 r n by blast
  have c3: "recover_loop [([''r'', ''a''], Dir)] ''/r'' ''./'' [''a''] 0 = Inl (JsError ''unexpected exit'')"
    using t1 d by blast
  have c4: "recoverDirectories [([''r'', ''a''], Dir)] ''/r'' ''a'' = Inl (JsError ''unexpected exit'')"
    using t2 a by blast
  show ?thesis using r n d s c1 c2 c3 c4 by blast
qed

text \<open>
  C1, as the code has it.  Let the source file \<open>ds/f.sol\<close> lie unambiguously below the
  version's source root, let the flattened fragment have at most five
  underscore-delimited tokens, let \<open>_sol_\<close> occur neither in the fragment followed by
  \<open>_sol\<close> nor in the interface name with its extension, and let neither of these two
  contain a dot.  Then the renaming parse of the flattened name yields \<open>./\<close> followed by
  the path without its \<open>.sol\<close> extension, the interface name and the extension.
\<close>

theorem renaming_parse_round_trip:
  assumes segs: "\<forall>s \<in> set (ds @ [f]). segment_ok s"
      and layout: "layout_ok fs (resolve_path [cdir @ ''/'' @ version]) ds f"
      and budget: "length (js_split (js_join (ds @ [f]) ''_'') ''_'') \<le> 5"
      and lenv: "length vtext = length version"
      and marker: "\<not> sublist ''_sol_'' (js_join (ds @ [f]) ''_'' @ ''_sol'')"
      and tail: "\<not> sublist ''_sol_'' (name @ ''.'' @ ext)"
      and name: "CHR ''.'' \<notin> set name" and ext: "CHR ''.'' \<notin> set ext"
  shows "parse_output fs cdir version (flattened_name vtext (ds @ [f]) name ext)
         = Inr (''./'' @ js_join (ds @ [f]) ''/'', name, Some ext)"
proof -
  let ?toks = "concat (map (\<lambda>s. js_split s ''_'') (ds @ [f]))"
  have toks: "js_split (js_join (ds @ [f]) ''_'') ''_'' = ?toks"
    by (rule js_split_join) simp
  have "recover_loop fs (cdir @ ''/'' @ version) (dir_text []) ?toks 0
        = Inr (dir_text [] @ js_join (ds @ [f]) ''/'')"
  proof (rule recover_loop_layout)
    show "\<forall>s \<in> set ([] @ ds @ [f]). segment_ok s" using segs by simp
    show "layout_ok fs (resolve_path [cdir @ ''/'' @ version] @ []) ds f" using layout by simp
    show "0 + length ?toks \<le> 5" using budget toks by simp
  qed
  then have "recoverDirectories fs (cdir @ ''/'' @ version) (js_join (ds @ [f]) ''_'')
             = Inr (''./'' @ js_join (ds @ [f]) ''/'')"
    by (simp add: recoverDirectories_def toks dir_text_def)
  then show ?thesis
    using parse_flattened[OF lenv marker tail name ext, of fs cdir] by simp
qed

theorem renaming_parse_round_trip_witness:
  "segment_ok ''nested'' \<and> segment_ok ''Issue552_Reproduction''
   \<and> layout_ok [([''r'', ''contracts'', ''v0.8.9'', ''nested''], Dir)]
        (resolve_path [''/r/contracts'' @ ''/'' @ ''v0.8.9'']) [''nested''] ''Issue552_Reproduction''
   \<and> length (js_split (js_join ([''nested''] @ [''Issue552_Reproduction'']) ''_'') ''_'') \<le> 5
   \<and> length ''v0_8_9'' = length ''v0.8.9''
   \<and> \<not> sublist ''_sol_'' (js_join ([''nested''] @ [''Issue552_Reproduction'']) ''_'' @ ''_sol'')
   \<and> \<not> sublist ''_sol_'' (''Issue552_Observer'' @ ''.'' @ ''abi'')
   \<and> CHR ''.'' \<notin> set ''Issue552_Observer'' \<and> CHR ''.'' \<notin> set ''abi''
   \<and> parse_output [([''r'', ''contracts'', ''v0.8.9'', ''nested''], Dir)] ''/r/contracts'' ''v0.8.9''
        ''contracts_v0_8_9_nested_Issue552_Reproduction_sol_Issue552_Observer.abi''
       = Inr (''./nested/Issue552_Reproduction'', ''Issue552_Observer'', Some ''abi'')"
proof -
  have h1: "\<forall>s \<in> set ([''nested''] @ [''Issue552_Reproduction'']). segment_ok s" by code_simp
  have h2: "layout_ok [([''r'', ''contracts'', ''v0.8.9'', ''nested''], Dir)]
        (resolve_path [''/r/contracts'' @ ''/'' @ ''v0.8.9'']) [''nested''] ''Issue552_Reproduction''"
    by code_simp
  have h3: "length (js_split (js_join ([''nested''] @ [''Issue552_Reproduction'']) ''_'') ''_'') \<le> 5"
    by code_simp
  have h4: "length ''v0_8_9'' = length ''v0.8.9''" by simp
  have h5: "\<not> sublist ''_sol_'' (js_join ([''nested''] @ [''Issue552_Reproduction'']) ''_'' @ ''_sol'')"
    by code_simp
  have h6: "\<not> sublist ''_sol_'' (''Issue552_Observer'' @ ''.'' @ ''abi'')" by code_simp
  have h7: "CHR ''.'' \<notin> set ''Issue552_Observer''" by simp
  have h8: "CHR ''.'' \<notin> set ''abi''" by simp
  have c: "parse_output [([''r'', ''contracts'', ''v0.8.9'', ''nested''], Dir)] ''/r/contracts'' ''v0.8.9''
        (flattened_name ''v0_8_9'' ([''nested''] @ [''Issue552_Reproduction'']) ''Issue552_Observer'' ''abi'')
       = Inr (''./'' @ js_join ([''nested''] @ [''Issue552_Reproduction'']) ''/'', ''Issue552_Observer'', Some ''abi'')"
    by (rule renaming_parse_round_trip[OF h1 h2 h3 h4 h5 h6 h7 h8])
  have n: "flattened_name ''v0_8_9'' ([''nested''] @ [''Issue552_Reproduction'']) ''Issue552_Observer'' ''abi''
           = ''contracts_v0_8_9_nested_Issue552_Reproduction_sol_Issue552_Observer.abi''"
    by (simp add: flattened_name_def)
  show ?thesis using h1 h2 h3 h4 h5 h6 h7 h8 c unfolding n by simp
qed

text \<open>
  The claim as stated fails: for \<open>a/b/c/d/My_Token.sol\<close>, of depth four with every
  prefix directory present, the fragment has six tokens and the parse throws.
\<close>

theorem renaming_parse_round_trip_counterexample:
  "node_of [([''r'', ''v1'', ''a''], Dir), ([''r'', ''v1'', ''a'', ''b''], Dir),
            ([''r'', ''v1'', ''a'', ''b'', ''c''], Dir), ([''r'', ''v1'', ''a'', ''b'', ''c'', ''d''], Dir)]
       [''r'', ''v1'', ''a'', ''b'', ''c'', ''d''] = Some Dir
   \<and> parse_output
        [([''r'', ''v1'', ''a''], Dir), ([''r'', ''v1'', ''a'', ''b''], Dir),
         ([''r'', ''v1'', ''a'', ''b'', ''c''], Dir), ([''r'', ''v1'', ''a'', ''b'', ''c'', ''d''], Dir)]
        ''/r'' ''v1'' (flattened_name ''v1'' [''a'', ''b'', ''c'', ''d'', ''My_Token''] ''Token'' ''abi'')
       = Inl (JsError ''unexpected exit'')"
  by code_simp

section \<open>The claims about the pipeline\<close>

text \<open>
  C4.  Once discovery has returned, \<open>removeOutDir\<close> and with it the run behave in
  three ways.  A missing output directory is no error: the state is unchanged and the run
  goes on with compilation.  An output directory that exists and that the operating
  system lets go is removed with everything below it, nothing else is touched, and the
  run goes on.  Any removal failure whose code is not \<open>ENOENT\<close> is rethrown: the run
  ends with that error before anything is compiled.
\<close>

theorem removeOutDir_tolerates_absence:
  "findFiles E (disk w) = Inr F \<Longrightarrow>
   (node_at (disk w) (outDir F) = None \<longrightarrow>
      removeOutDir E F w = (Inr (), w) \<and> main E w = pipeline E F w)
   \<and> (node_at (disk w) (outDir F) = Some Dir \<and> removal_fault E (outDir F) = None \<longrightarrow>
        removeOutDir E F w
          = (Inr (), w\<lparr>disk := filter (\<lambda>(p, n). \<not> prefix (resolve_path [outDir F]) p) (disk w)\<rparr>)
        \<and> main E w
          = pipeline E F (w\<lparr>disk := filter (\<lambda>(p, n). \<not> prefix (resolve_path [outDir F]) p) (disk w)\<rparr>))
   \<and> (\<forall>e. rmdirSync E (disk w) (outDir F) = Inl e \<and> error_code e \<noteq> Some ''ENOENT'' \<longrightarrow>
        removeOutDir E F w = (Inl e, w) \<and> main E w = (Inl e, w))"
proof (intro conjI impI allI)
  assume f: "findFiles E (disk w) = Inr F"
  {
    assume a: "node_at (disk w) (outDir F) = None"
    then show r: "removeOutDir E F w = (Inr (), w)"
      by (simp add: removeOutDir_def rmdirSync_def)
    show "main E w = pipeline E F w"
      using main_unfold[OF f] r by (simp add: io_bind_def)
  }
  {
    assume a: "node_at (disk w) (outDir F) = Some Dir \<and> removal_fault E (outDir F) = None"
    then show r: "removeOutDir E F w
          = (Inr (), w\<lparr>disk := filter (\<lambda>(p, n). \<not> prefix (resolve_path [outDir F]) p) (disk w)\<rparr>)"
      by (simp add: removeOutDir_def rmdirSync_def)
    show "main E w
          = pipeline E F (w\<lparr>disk := filter (\<lambda>(p, n). \<not> prefix (resolve_path [outDir F]) p) (disk w)\<rparr>)"
      using main_unfold[OF f] r by (simp add: io_bind_def)
  }
  {
    fix e
    assume a: "rmdirSync E (disk w) (outDir F) = Inl e \<and> error_code e \<noteq> Some ''ENOENT''"
    then show r: "removeOutDir E F w = (Inl e, w)"
      by (simp add: removeOutDir_def)
    show "main E w = (Inl e, w)"
      using main_unfold[OF f] r by (simp add: io_bind_def)
  }
qed

theorem removeOutDir_tolerates_absence_witness:
  "findFiles locked_env bare_tree = Inr bare_files
   \<and> node_at bare_tree (outDir bare_files) = None
   \<and> removeOutDir locked_env bare_files \<lparr>disk = bare_tree, invocations = []\<rparr>
        = (Inr (), \<lparr>disk = bare_tree, invocations = []\<rparr>)
   \<and> main locked_env \<lparr>disk = bare_tree, invocations = []\<rparr>
        = pipeline locked_env bare_files \<lparr>disk = bare_tree, invocations = []\<rparr>
   \<and> findFiles stub_env built_tree = Inr bare_files
   \<and> node_at built_tree (outDir bare_files) = Some Dir
   \<and> removal_fault stub_env (outDir bare_files) = None
   \<and> removeOutDir stub_env bare_files \<lparr>disk = built_tree, invocations = []\<rparr>
        = (Inr (), \<lparr>disk = bare_tree, invocations = []\<rparr>)
   \<and> main stub_env \<lparr>disk = built_tree, invocations = []\<rparr>
        = pipeline stub_env bare_files \<lparr>disk = bare_tree, invocations = []\<rparr>
   \<and> findFiles locked_env built_tree = Inr bare_files
   \<and> rmdirSync locked_env built_tree (outDir bare_files)
        = Inl (Errno ''EACCES'' ''/r/contracts/compiled'')
   \<and> error_code (Errno ''EACCES'' ''/r/contracts/compiled'') \<noteq> Some ''ENOENT''
   \<and> main locked_env \<lparr>disk = built_tree, invocations = []\<rparr>
        = (Inl (Errno ''EACCES'' ''/r/contracts/compiled''), \<lparr>disk = built_tree, invocations = []\<rparr>)"
proof -
  let ?wa = "\<lparr>disk = bare_tree, invocations = []\<rparr>" and ?wb = "\<lparr>disk = built_tree, invocations = []\<rparr>"
  have fa: "findFiles locked_env (disk ?wa) = Inr bare_files" by code_simp
  have na: "node_at (disk ?wa) (outDir bare_files) = None" by code_simp
  have fb: "findFiles stub_env (disk ?wb) = Inr bare_files" by code_simp
  have nb: "node_at (disk ?wb) (outDir bare_files) = Some Dir \<and> removal_fault stub_env (outDir bare_files) = None"
    by code_simp
  have rb: "filter (\<lambda>(p, n). \<not> prefix (resolve_path [outDir bare_files]) p) (disk ?wb) = bare_tree"
    by code_simp
  have fc: "findFiles locked_env (disk ?wb) = Inr bare_files" by code_simp
  have nc: "rmdirSync locked_env (disk ?wb) (outDir bare_files) = Inl (Errno ''EACCES'' ''/r/contracts/compiled'')
            \<and> error_code (Errno ''EACCES'' ''/r/contracts/compiled'') \<noteq> Some ''ENOENT''"
    by code_simp
  have ca: "removeOutDir locked_env bare_files ?wa = (Inr (), ?wa)
            \<and> main locked_env ?wa = pipeline locked_env bare_files ?wa"
    using removeOutDir_tolerates_absence[OF fa] na by blast
  have cb: "removeOutDir stub_env bare_files ?wb = (Inr (), ?wa)
            \<and> main stub_env ?wb = pipeline stub_env bare_files ?wa"
    using removeOutDir_tolerates_absence[OF fb] nb rb by simp
  have cc: "main locked_env ?wb = (Inl (Errno ''EACCES'' ''/r/contracts/compiled''), ?wb)"
    using removeOutDir_tolerates_absence[OF fc] nc by blast
  show ?thesis using fa na fb nb fc nc ca cb cc by simp
qed

text \<open>
  C5.  \<open>generateABIs\<close> hands \<open>execSync\<close> the command lines of the version groups
  one after the other in the mapping's order.  When it returns, exactly these were
  invoked, one per group.  When it throws, the invocations are an initial part of that
  sequence, the last of them exited with a non-zero status, and no later group was
  attempted.  At every group the step is: run its command; a non-zero status throws at
  once, status zero continues with the remaining groups.  A throw of \<open>generateABIs\<close>
  ends the rest of the pipeline and the whole run with that error, in the state the
  failed invocation left: nothing is renamed or copied afterwards.
\<close>

theorem generateABIs_sequential:
  "(case generateABIs E F w of
      (Inr u, w') \<Rightarrow> invocations w' = invocations w @ commands F
    | (Inl e, w') \<Rightarrow>
        \<exists>k < length (commands F).
           invocations w' = invocations w @ take (Suc k) (commands F)
           \<and> (\<exists>status. status \<noteq> 0 \<and> e = CommandFailed (commands F ! k) status))
   \<and> (\<forall>dirName filePaths rest. contracts F = (dirName, filePaths) # rest \<longrightarrow>
        generateABIs E F w
          = (let command = compile_command dirName filePaths;
                 (status, fs') = shell E command (rootDir F) (disk w);
                 w1 = w\<lparr>disk := fs', invocations := invocations w @ [command]\<rparr>
             in if status \<noteq> 0 then (Inl (CommandFailed command status), w1)
                else generateABIs E (F\<lparr>contracts := rest\<rparr>) w1))
   \<and> (\<forall>w0 e w'. findFiles E (disk w0) = Inr F \<and> removeOutDir E F w0 = (Inr (), w)
          \<and> generateABIs E F w = (Inl e, w') \<longrightarrow>
        pipeline E F w = (Inl e, w') \<and> main E w0 = (Inl e, w'))"
proof (intro conjI allI impI)
  show "case generateABIs E F w of
      (Inr u, w') \<Rightarrow> invocations w' = invocations w @ commands F
    | (Inl e, w') \<Rightarrow>
        \<exists>k < length (commands F).
           invocations w' = invocations w @ take (Suc k) (commands F)
           \<and> (\<exists>status. status \<noteq> 0 \<and> e = CommandFailed (commands F ! k) status)"
  proof (cases "generateABIs E F w")
    case (Pair r w')
    let ?body = "\<lambda>(dirName, filePaths). execSync E (compile_command dirName filePaths) (rootDir F)"
    let ?lbl = "\<lambda>(dirName, filePaths). compile_command dirName filePaths"
    have g: "io_for_each ?body (contracts F) w = (r, w')" using Pair by (simp add: generateABIs_def)
    show ?thesis
    proof (cases r)
      case (Inr u)
      have "invocations (snd (io_for_each ?body (contracts F) w)) = invocations w @ map ?lbl (contracts F)"
        by (rule for_each_trace_ok[where lbl="?lbl" and u=u]) (simp_all add: compile_body_log g Inr)
      then show ?thesis using Pair Inr g by (simp add: commands_def)
    next
      case (Inl e)
      have "\<exists>k < length (contracts F).
              invocations (snd (io_for_each ?body (contracts F) w))
                = invocations w @ take (Suc k) (map ?lbl (contracts F))
              \<and> (\<exists>w0. fst (?body (contracts F ! k) w0) = Inl e)"
        by (rule for_each_trace_error[where lbl="?lbl"]) (simp_all add: compile_body_log g Inl)
      then obtain k w0 where k: "k < length (contracts F)"
          "invocations w' = invocations w @ take (Suc k) (map ?lbl (contracts F))"
          "fst (?body (contracts F ! k) w0) = Inl e"
        using g by auto
      from compile_body_error[OF k(3)] obtain status where
        st: "status \<noteq> 0" "e = CommandFailed (?lbl (contracts F ! k)) status" by blast
      have "commands F ! k = ?lbl (contracts F ! k)" using k(1) by (simp add: commands_def)
      then show ?thesis using Pair Inl k(1,2) st by (auto simp: commands_def)
    qed
  qed
next
  fix dirName filePaths rest
  assume c: "contracts F = (dirName, filePaths) # rest"
  obtain status fs' where sh: "shell E (compile_command dirName filePaths) (rootDir F) (disk w) = (status, fs')"
    by (cases "shell E (compile_command dirName filePaths) (rootDir F) (disk w)")
  have ex: "execSync E (compile_command dirName filePaths) (rootDir F) w
      = (if status \<noteq> 0 then Inl (CommandFailed (compile_command dirName filePaths) status) else Inr (),
         w\<lparr>disk := fs', invocations := invocations w @ [compile_command dirName filePaths]\<rparr>)"
    by (simp add: execSync_def sh Let_def)
  show "generateABIs E F w
          = (let command = compile_command dirName filePaths;
                 (status, fs') = shell E command (rootDir F) (disk w);
                 w1 = w\<lparr>disk := fs', invocations := invocations w @ [command]\<rparr>
             in if status \<noteq> 0 then (Inl (CommandFailed command status), w1)
                else generateABIs E (F\<lparr>contracts := rest\<rparr>) w1)"
    unfolding generateABIs_def c Let_def sh
    by (simp add: for_each_Cons ex)
next
  fix w0 e w'
  assume a: "findFiles E (disk w0) = Inr F \<and> removeOutDir E F w0 = (Inr (), w)
          \<and> generateABIs E F w = (Inl e, w')"
  then show p: "pipeline E F w = (Inl e, w')" by (simp add: pipeline_def io_bind_def)
  show "main E w0 = (Inl e, w')"
    using a p main_unfold[of E w0 F] by (simp add: io_bind_def)
qed

theorem generateABIs_sequential_witness:
  "contracts two_groups = (''v0.4.24'', [''./A.sol'']) # [(''v0.8.9'', [''./lib/B.sol''])]
   \<and> generateABIs failing_env two_groups \<lparr>disk = bare_tree, invocations = []\<rparr>
       = (Inl (CommandFailed
            ''pnpm --package solc@^0.4.24 dlx solcjs --abi contracts/v0.4.24/A.sol --bin -o ./contracts/compiled/v0.4.24'' 1),
          \<lparr>disk = bare_tree, invocations =
            [''pnpm --package solc@^0.4.24 dlx solcjs --abi contracts/v0.4.24/A.sol --bin -o ./contracts/compiled/v0.4.24'']\<rparr>)
   \<and> findFiles failing_env (disk \<lparr>disk = double_json_tree, invocations = []\<rparr>) = Inr double_json_files
   \<and> removeOutDir failing_env double_json_files \<lparr>disk = double_json_tree, invocations = []\<rparr>
       = (Inr (), \<lparr>disk = double_json_tree, invocations = []\<rparr>)
   \<and> generateABIs failing_env double_json_files \<lparr>disk = double_json_tree, invocations = []\<rparr>
       = (Inl (CommandFailed
            ''pnpm --package solc@^0.6.4 dlx solcjs --abi contracts/v0.6.4/A.sol --bin -o ./contracts/compiled/v0.6.4'' 1),
          \<lparr>disk = double_json_tree, invocations =
            [''pnpm --package solc@^0.6.4 dlx solcjs --abi contracts/v0.6.4/A.sol --bin -o ./contracts/compiled/v0.6.4'']\<rparr>)
   \<and> main failing_env \<lparr>disk = double_json_tree, invocations = []\<rparr>
       = (Inl (CommandFailed
            ''pnpm --package solc@^0.6.4 dlx solcjs --abi contracts/v0.6.4/A.sol --bin -o ./contracts/compiled/v0.6.4'' 1),
          \<lparr>disk = double_json_tree, invocations =
            [''pnpm --package solc@^0.6.4 dlx solcjs --abi contracts/v0.6.4/A.sol --bin -o ./contracts/compiled/v0.6.4'']\<rparr>)"
proof -
  let ?w = "\<lparr>disk = double_json_tree, invocations = []\<rparr>"
  let ?c6 = "''pnpm --package solc@^0.6.4 dlx solcjs --abi contracts/v0.6.4/A.sol --bin -o ./contracts/compiled/v0.6.4''"
  have c: "contracts two_groups = (''v0.4.24'', [''./A.sol'']) # [(''v0.8.9'', [''./lib/B.sol''])]"
    by (simp add: two_groups_def)
  have cmd: "compile_command ''v0.4.24'' [''./A.sol'']
     = ''pnpm --package solc@^0.4.24 dlx solcjs --abi contracts/v0.4.24/A.sol --bin -o ./contracts/compiled/v0.4.24''"
    by code_simp
  have sh: "shell failing_env = (\<lambda>command cwd fs. (1, fs))" by (simp add: failing_env_def)
  from generateABIs_sequential[where E=failing_env and F=two_groups and w="\<lparr>disk = bare_tree, invocations = []\<rparr>"] c
  have "generateABIs failing_env two_groups \<lparr>disk = bare_tree, invocations = []\<rparr>
          = (let command = compile_command ''v0.4.24'' [''./A.sol''];
                 (status, fs') = shell failing_env command (rootDir two_groups) (disk \<lparr>disk = bare_tree, invocations = []\<rparr>);
                 w1 = \<lparr>disk = bare_tree, invocations = []\<rparr>\<lparr>disk := fs', invocations := invocations \<lparr>disk = bare_tree, invocations = []\<rparr> @ [command]\<rparr>
             in if status \<noteq> 0 then (Inl (CommandFailed command status), w1)
                else generateABIs failing_env (two_groups\<lparr>contracts := [(''v0.8.9'', [''./lib/B.sol''])]\<rparr>) w1)"
    by blast
  then have step: "generateABIs failing_env two_groups \<lparr>disk = bare_tree, invocations = []\<rparr>
       = (Inl (CommandFailed
            ''pnpm --package solc@^0.4.24 dlx solcjs --abi contracts/v0.4.24/A.sol --bin -o ./contracts/compiled/v0.4.24'' 1),
          \<lparr>disk = bare_tree, invocations =
            [''pnpm --package solc@^0.4.24 dlx solcjs --abi contracts/v0.4.24/A.sol --bin -o ./contracts/compiled/v0.4.24'']\<rparr>)"
    by (simp add: cmd sh Let_def)
  have f: "findFiles failing_env (disk ?w) = Inr double_json_files" by code_simp
  have r: "removeOutDir failing_env double_json_files ?w = (Inr (), ?w)" by code_simp
  have g: "generateABIs failing_env double_json_files ?w
           = (Inl (CommandFailed ?c6 1), \<lparr>disk = double_json_tree, invocations = [?c6]\<rparr>)"
    by code_simp
  have m: "main failing_env ?w = (Inl (CommandFailed ?c6 1), \<lparr>disk = double_json_tree, invocations = [?c6]\<rparr>)"
    using generateABIs_sequential[where E=failing_env and F=double_json_files and w="?w"] f r g
    by blast
  show ?thesis using c step f r g m by simp
qed

text \<open>
  C6, at the prebuilt file \<open>legacy/Old.json.json\<close>.  \<open>replace('.json', '.abi')\<close>
  rewrites the first \<open>.json\<close> of the path, not its extension: the copy arrives at
  \<open>legacy/Old.abi.json\<close> in the output tree, with the same bytes, and nothing arrives
  at \<open>legacy/Old.json.abi\<close>.
\<close>

theorem copyPrebuiltABIs_first_occurrence:
  "js_replace ''legacy/Old.json.json'' ''.json'' ''.abi'' = ''legacy/Old.abi.json''
   \<and> fst (copyPrebuiltABIs double_json_files \<lparr>disk = double_json_tree, invocations = []\<rparr>) = Inr ()
   \<and> node_of (disk (snd (copyPrebuiltABIs double_json_files \<lparr>disk = double_json_tree, invocations = []\<rparr>)))
        [''r'', ''contracts'', ''compiled'', ''legacy'', ''Old.abi.json''] = Some (File ''[]'')
   \<and> node_of (disk (snd (copyPrebuiltABIs double_json_files \<lparr>disk = double_json_tree, invocations = []\<rparr>)))
        [''r'', ''contracts'', ''compiled'', ''legacy'', ''Old.json.abi''] = None"
  by code_simp

text \<open>
  C7.  With the contracts root present, \<open>findFiles\<close> returns without error; the keys
  of its version mapping are exactly the names that are directories directly below the
  contracts root and start with \<open>v\<close>, each once; every group holds what the glob
  of \<open>./**/*.sol\<close> below its directory returns, which is in lexicographic order; and
  with no such directory the mapping is empty.
\<close>

theorem findFiles_version_groups:
  assumes root: "node_of fs (contracts_root E) = Some Dir"
  shows "\<exists>F. findFiles E fs = Inr F
     \<and> set (map fst (contracts F))
        = {name. node_of fs (contracts_root E @ [name]) = Some Dir \<and> take 1 name = ''v''}
     \<and> distinct (map fst (contracts F))
     \<and> (\<forall>(version, filePaths) \<in> set (contracts F).
           filePaths = globSync fs ''./**/*.sol'' (resolve [contractsDir F, version])
           \<and> sorted filePaths)
     \<and> ({name. node_of fs (contracts_root E @ [name]) = Some Dir \<and> take 1 name = ''v''} = {}
          \<longrightarrow> contracts F = [])"
proof -
  from findFiles_succeeds[OF root] obtain F where f: "findFiles E fs = Inr F" by blast
  let ?V = "{name. node_of fs (contracts_root E @ [name]) = Some Dir \<and> take 1 name = ''v''}"
  note names = version_names(1)[OF f] and pairs = version_names(2)[OF f]
  have listed: "\<And>name. node_of fs (contracts_root E @ [name]) = Some Dir \<Longrightarrow>
                  name \<in> set (child_names fs (contracts_root E))"
  proof -
    fix name assume "node_of fs (contracts_root E @ [name]) = Some Dir"
    then have "map_of fs (contracts_root E @ [name]) = Some Dir" by (simp add: node_of_def)
    then have "contracts_root E @ [name] \<in> fst ` set fs" by (metis map_of_eq_None_iff option.distinct(1))
    then show "name \<in> set (child_names fs (contracts_root E))" by (simp add: set_child_names)
  qed
  have s: "set (map fst (contracts F)) = ?V" unfolding names using listed by auto
  have d: "distinct (map fst (contracts F))" unfolding names
    using distinct_child_names[of fs "contracts_root E"] by simp
  have g: "\<forall>(version, filePaths) \<in> set (contracts F).
             filePaths = globSync fs ''./**/*.sol'' (resolve [contractsDir F, version])
             \<and> sorted filePaths"
    by (subst pairs) (auto simp: sorted_globSync)
  have e: "?V = {} \<longrightarrow> contracts F = []"
  proof
    assume "?V = {}"
    with s have "set (map fst (contracts F)) = {}" by (simp only:)
    then show "contracts F = []" by simp
  qed
  show ?thesis using f s d g e by blast
qed

theorem findFiles_version_groups_witness:
  "node_of double_json_tree (contracts_root stub_env) = Some Dir
   \<and> (\<exists>F. findFiles stub_env double_json_tree = Inr F
     \<and> set (map fst (contracts F))
        = {name. node_of double_json_tree (contracts_root stub_env @ [name]) = Some Dir \<and> take 1 name = ''v''}
     \<and> distinct (map fst (contracts F))
     \<and> (\<forall>(version, filePaths) \<in> set (contracts F).
           filePaths = globSync double_json_tree ''./**/*.sol'' (resolve [contractsDir F, version])
           \<and> sorted filePaths)
     \<and> ({name. node_of double_json_tree (contracts_root stub_env @ [name]) = Some Dir \<and> take 1 name = ''v''} = {}
          \<longrightarrow> contracts F = []))"
proof -
  have h: "node_of double_json_tree (contracts_root stub_env) = Some Dir" by code_simp
  show ?thesis using h findFiles_version_groups[OF h] by blast
qed

text \<open>
  C8, at a source tree with the prebuilt file \<open>legacy/Old.json.json\<close>.  The first
  run completes and leaves \<open>legacy/Old.abi.json\<close> in the output tree; the source tree
  is as before.  The second run finds that file as a prebuilt one, resets the output
  directory and then fails to copy it: it ends with \<open>ENOENT\<close>, and its output tree
  lacks the file the first run's output tree has.
\<close>

theorem main_twice_differs:
  "main stub_env \<lparr>disk = double_json_tree, invocations = []\<rparr> = (Inr (), after_first_run)
   \<and> filter (\<lambda>(p, n). prefix [''r'', ''contracts''] p \<and> \<not> prefix [''r'', ''contracts'', ''compiled''] p)
         (disk after_first_run)
       = filter (\<lambda>(p, n). prefix [''r'', ''contracts''] p \<and> \<not> prefix [''r'', ''contracts'', ''compiled''] p)
           double_json_tree
   \<and> main stub_env after_first_run
       = (Inl (Errno ''ENOENT'' ''/r/contracts/compiled/legacy/Old.abi.json''), after_second_run)
   \<and> node_of (disk after_first_run)
        [''r'', ''contracts'', ''compiled'', ''legacy'', ''Old.abi.json''] = Some (File ''[]'')
   \<and> node_of (disk after_second_run)
        [''r'', ''contracts'', ''compiled'', ''legacy'', ''Old.abi.json''] = None"
  by code_simp

text \<open>
  C10, at a tree whose output directory holds \<open>Stale.json\<close> from earlier.  Discovery
  runs before the reset and lists the file as prebuilt, \<open>compiled/Stale.json\<close>.  The
  run resets the output directory, compiles, renames, and ends in
  \<open>copyPrebuiltABIs\<close> with \<open>ENOENT\<close>: the source of the copy is gone.  Nothing is
  copied back: no \<open>Stale.abi\<close> is in the output tree.
\<close>

theorem stale_json_not_copied:
  "node_of stale_tree [''r'', ''contracts'', ''compiled'', ''Stale.json''] = Some (File ''[]'')
   \<and> findFiles stub_env stale_tree = Inr stale_files
   \<and> prebuiltAbis stale_files = [''compiled/Stale.json'']
   \<and> main stub_env \<lparr>disk = stale_tree, invocations = []\<rparr>
       = (Inl (Errno ''ENOENT'' ''/r/contracts/compiled/Stale.json''), after_stale_run)
   \<and> copyPrebuiltABIs stale_files after_stale_run
       = (Inl (Errno ''ENOENT'' ''/r/contracts/compiled/Stale.json''), after_stale_run)
   \<and> node_of (disk after_stale_run) [''r'', ''contracts'', ''compiled'', ''Stale.json''] = None
   \<and> node_of (disk after_stale_run) [''r'', ''contracts'', ''compiled'', ''Stale.abi''] = None
   \<and> node_of (disk after_stale_run)
        [''r'', ''contracts'', ''compiled'', ''compiled'', ''Stale.abi''] = None"
  by code_simp

end
